theory Spec2Isabelle
  imports Main "HOL-Library.Word" "HOL-Library.Sublist"
begin

section \<open>A select-based TCP echo server: shallow embedding of main.c\<close>

text \<open>
  The model follows \<^verbatim>\<open>src/main.c\<close> function by function. State that the C code
  reaches through pointers is passed explicitly; every system call takes the answer of
  the kernel as an argument, so that a handler is a function of the state and of what
  the kernel said.

  Integers. \<^verbatim>\<open>size\<close>, \<^verbatim>\<open>offset\<close> and \<^verbatim>\<open>len\<close> are \<^verbatim>\<open>size_t\<close>; they are
  natural numbers here. No addition of the program can wrap: \<^verbatim>\<open>size\<close> never exceeds
  \<^verbatim>\<open>MAX_PENDING_WRITES\<close> (lemma \<open>write_buffer_append_post\<close> and the server invariant
  below), \<^verbatim>\<open>offset\<close> never exceeds \<^verbatim>\<open>size\<close>, and \<^verbatim>\<open>len\<close> is the length of an object
  in memory. File descriptors are C \<^verbatim>\<open>int\<close>s and are integers here.
\<close>

subsection \<open>Constants and data\<close>

type_synonym byte = "8 word"

definition BUFFER_SIZE :: nat where
  "BUFFER_SIZE = 4096"

definition MAX_PENDING_WRITES :: nat where
  "MAX_PENDING_WRITES = 8192"

text \<open>
  \<^verbatim>\<open>typedef struct { char data[MAX_PENDING_WRITES]; size_t size; size_t offset; } WriteBuffer;\<close>
  The field \<^verbatim>\<open>size\<close> is called \<open>size_wb\<close>, since \<open>size\<close> is a constant of HOL.
\<close>

record WriteBuffer =
  data :: "byte list"
  size_wb :: nat
  offset :: nat

text \<open>\<^verbatim>\<open>typedef struct { int fd; WriteBuffer write_buf; } Client;\<close>\<close>

record Client =
  fd :: int
  write_buf :: WriteBuffer

text \<open>
  The values of \<^verbatim>\<open>errno\<close> that the program can meet. It tests for \<^verbatim>\<open>EAGAIN\<close>,
  \<^verbatim>\<open>EWOULDBLOCK\<close> and \<^verbatim>\<open>EINTR\<close> only; the other constructors stand for every other
  error.
\<close>

datatype errno = EAGAIN | EWOULDBLOCK | EINTR | ECONNRESET | EPIPE | EBADF | EMFILE | ENOMEM

definition would_block :: "errno \<Rightarrow> bool" where
  "would_block e = (e = EAGAIN \<or> e = EWOULDBLOCK)"

text \<open>What the kernel answers to \<^verbatim>\<open>send\<close>, \<^verbatim>\<open>recv\<close>, \<^verbatim>\<open>accept\<close> and \<^verbatim>\<open>select\<close>.\<close>

datatype send_result = SendOk nat | SendErr errno

datatype recv_result = RecvOk "byte list" | RecvErr errno

text \<open>A successful \<^verbatim>\<open>accept\<close> returns a descriptor, which is not negative; a failed one returns -1.\<close>

datatype accept_result = AcceptOk nat | AcceptErr errno

datatype select_result = SelectReady "int set" "int set" | SelectErr errno

text \<open>
  The observable effects of the program, in the order in which they happen: system calls
  with their results, and the lines written to stdout and stderr.
\<close>

datatype event =
    Select int select_result
  | Accept int accept_result
  | SetNonblocking int bool
  | Close int
  | Recv int recv_result
  | Send int "byte list"
  | SendFailed int errno
  | Log string

datatype error = BufferFull

subsection \<open>Write buffer\<close>

text \<open>\<^verbatim>\<open>void init_write_buffer(WriteBuffer *buf)\<close>: the bytes of \<^verbatim>\<open>data\<close> are left as they are.\<close>

definition init_write_buffer :: "WriteBuffer \<Rightarrow> WriteBuffer" where
  "init_write_buffer buf = buf\<lparr>size_wb := 0, offset := 0\<rparr>"

definition write_buffer_empty :: "WriteBuffer \<Rightarrow> bool" where
  "write_buffer_empty buf = (offset buf \<ge> size_wb buf)"

text \<open>\<^verbatim>\<open>memcpy(dst + pos, src, len)\<close> on an array held as a list.\<close>

definition memcpy :: "byte list \<Rightarrow> nat \<Rightarrow> byte list \<Rightarrow> byte list" where
  "memcpy dst pos src = take pos dst @ src @ drop (pos + length src) dst"

text \<open>
  \<^verbatim>\<open>bool write_buffer_append(WriteBuffer *buf, const char *data, size_t len)\<close>.
  The capacity test comes first and reads \<^verbatim>\<open>size\<close> as it is on entry; the reset of a
  consumed buffer comes after it. \<^verbatim>\<open>false\<close> is \<open>Inl BufferFull\<close>, and the buffer is
  then unchanged.
\<close>

definition write_buffer_append :: "WriteBuffer \<Rightarrow> byte list \<Rightarrow> error + WriteBuffer" where
  "write_buffer_append buf bs =
     (let len = length bs in
      if size_wb buf + len > MAX_PENDING_WRITES then Inl BufferFull
      else
        let buf1 = (if offset buf \<ge> size_wb buf then buf\<lparr>size_wb := 0, offset := 0\<rparr> else buf)
        in Inr (buf1\<lparr>data := memcpy (data buf1) (size_wb buf1) bs,
                     size_wb := size_wb buf1 + len\<rparr>))"

text \<open>
  \<^verbatim>\<open>send(fd, buf, len, 0)\<close> on a non-blocking socket: the kernel takes at most \<^verbatim>\<open>len\<close>
  bytes. \<open>SendOk n\<close> says how many bytes the socket is ready to take; the call returns
  the bytes it took.
\<close>

definition send_sys :: "send_result \<Rightarrow> byte list \<Rightarrow> errno + byte list" where
  "send_sys r bs = (case r of SendErr e \<Rightarrow> Inl e | SendOk n \<Rightarrow> Inr (take n bs))"

text \<open>The bytes \<^verbatim>\<open>data[offset..size)\<close> that are staged and not yet sent.\<close>

definition pending :: "WriteBuffer \<Rightarrow> byte list" where
  "pending buf = take (size_wb buf - offset buf) (drop (offset buf) (data buf))"

text \<open>
  \<^verbatim>\<open>int write_buffer_flush(WriteBuffer *buf, int fd)\<close>: 0 when everything is sent, 1 when
  more data remains, -1 on error. The loop calls \<^verbatim>\<open>send\<close> once per round; the list holds
  the kernel's answers to these calls, in order. The result is \<open>None\<close> when the answers
  run out while the loop is still running (a kernel that keeps taking 0 bytes keeps the
  loop running for ever). Besides the result and the buffer, the function returns the
  events of the calls it made.
\<close>

fun write_buffer_flush ::
  "WriteBuffer \<Rightarrow> int \<Rightarrow> send_result list \<Rightarrow> (int \<times> WriteBuffer \<times> event list) option" where
  "write_buffer_flush buf sockfd [] =
     (if offset buf < size_wb buf then None
      else Some (0, buf\<lparr>size_wb := 0, offset := 0\<rparr>, []))"
| "write_buffer_flush buf sockfd (r # rs) =
     (if offset buf < size_wb buf then
        (case send_sys r (pending buf) of
           Inl e \<Rightarrow>
             if would_block e then Some (1, buf, [SendFailed sockfd e])
             else Some (-1, buf, [SendFailed sockfd e, Log ''send''])
         | Inr sent \<Rightarrow>
             (case write_buffer_flush (buf\<lparr>offset := offset buf + length sent\<rparr>) sockfd rs of
                None \<Rightarrow> None
              | Some (res, buf', evs) \<Rightarrow> Some (res, buf', Send sockfd sent # evs)))
      else Some (0, buf\<lparr>size_wb := 0, offset := 0\<rparr>, []))"

subsection \<open>Server state\<close>

text \<open>
  The locals of \<^verbatim>\<open>run_server_with_select\<close> that the handlers reach through pointers:
  the slot table \<^verbatim>\<open>Client clients[FD_SETSIZE]\<close>, the two master sets and \<^verbatim>\<open>max_fd\<close>;
  and the trace of events so far. An \<^verbatim>\<open>fd_set\<close> is the set of the descriptors whose
  bit is set: \<^verbatim>\<open>FD_SET\<close> is \<open>insert\<close>, \<^verbatim>\<open>FD_CLR\<close> removes, \<^verbatim>\<open>FD_ISSET\<close> is membership.
  \<^verbatim>\<open>FD_SETSIZE\<close> comes from \<^verbatim>\<open><sys/select.h>\<close>, which is no file of the repository: the
  length of the slot table stands for it, and every loop over the table runs over that
  length. The sets here hold any integer: a descriptor at or above \<^verbatim>\<open>FD_SETSIZE\<close>, which
  has no bit in a C \<^verbatim>\<open>fd_set\<close>, is outside what the model shows. The handlers read
  \<^verbatim>\<open>clients[list_index]\<close> without a test; the loop calls them with indices of the table
  only, and the properties below are stated for such indices.
\<close>

record server =
  clients :: "Client list"
  master_read_set :: "int set"
  master_write_set :: "int set"
  max_fd :: int
  trace :: "event list"

subsection \<open>Closing a connection\<close>

text \<open>
  \<^verbatim>\<open>void close_client(Client *clients, int list_index, fd_set *master_read_set,
  fd_set *master_write_set)\<close>
\<close>

definition close_client :: "server \<Rightarrow> nat \<Rightarrow> server" where
  "close_client st list_index =
     (let cfd = fd (clients st ! list_index) in
      if cfd < 0 then st
      else st\<lparr>clients := (clients st)[list_index :=
                  \<lparr>fd = -1, write_buf = init_write_buffer (write_buf (clients st ! list_index))\<rparr>],
              master_read_set := master_read_set st - {cfd},
              master_write_set := master_write_set st - {cfd},
              trace := trace st @ [Log ''Closing client'', Close cfd]\<rparr>)"

subsection \<open>Acceptor\<close>

text \<open>
  The slot search of \<^verbatim>\<open>handle_new_connection\<close>:
  \<^verbatim>\<open>for (int i = 0; i < FD_SETSIZE; ++i) if (clients[i].fd < 0) { ...; break; }\<close>
\<close>

fun find_free_slot :: "Client list \<Rightarrow> nat option" where
  "find_free_slot [] = None"
| "find_free_slot (c # cs) =
     (if fd c < 0 then Some 0 else map_option Suc (find_free_slot cs))"

text \<open>
  \<^verbatim>\<open>void handle_new_connection(int server_fd, Client *clients, fd_set *master_read_set,
  int *max_fd)\<close>. The kernel's answers: \<open>a\<close> to \<^verbatim>\<open>accept\<close>, and \<open>nb_ok\<close>, whether
  \<^verbatim>\<open>set_nonblocking\<close> (two calls of \<^verbatim>\<open>fcntl\<close>) succeeds on the new descriptor.
\<close>

definition handle_new_connection :: "int \<Rightarrow> server \<Rightarrow> accept_result \<Rightarrow> bool \<Rightarrow> server" where
  "handle_new_connection server_fd st a nb_ok =
     (case a of
        AcceptErr e \<Rightarrow>
          st\<lparr>trace := trace st @ Accept server_fd a # (if would_block e then [] else [Log ''accept''])\<rparr>
      | AcceptOk n \<Rightarrow>
          let client_fd = int n in
          if \<not> nb_ok then
            st\<lparr>trace := trace st @ [Accept server_fd a, SetNonblocking client_fd False,
                                     Log ''fcntl'', Close client_fd]\<rparr>
          else
            let st1 = st\<lparr>master_read_set := insert client_fd (master_read_set st),
                         max_fd := (if client_fd > max_fd st then client_fd else max_fd st),
                         trace := trace st @ [Accept server_fd a, SetNonblocking client_fd True]\<rparr>
            in (case find_free_slot (clients st1) of
                  Some i \<Rightarrow>
                    st1\<lparr>clients := (clients st1)[i :=
                           \<lparr>fd = client_fd, write_buf = init_write_buffer (write_buf (clients st1 ! i))\<rparr>],
                        trace := trace st1 @ [Log ''New client connected'']\<rparr>
                | None \<Rightarrow>
                    st1\<lparr>master_read_set := master_read_set st1 - {client_fd},
                        trace := trace st1 @ [Log ''Too many clients, rejecting connection'',
                                              Close client_fd]\<rparr>))"

subsection \<open>Read handler\<close>

text \<open>
  \<^verbatim>\<open>recv(fd, buffer, sizeof(buffer), 0)\<close> with \<^verbatim>\<open>char buffer[BUFFER_SIZE]\<close>: the kernel
  delivers at most \<^verbatim>\<open>BUFFER_SIZE\<close> of the bytes it has. \<open>RecvOk []\<close> is the return value
  0, the orderly shutdown of the peer.
\<close>

definition recv_sys :: "recv_result \<Rightarrow> recv_result" where
  "recv_sys r = (case r of RecvErr e \<Rightarrow> RecvErr e | RecvOk bs \<Rightarrow> RecvOk (take BUFFER_SIZE bs))"

text \<open>
  \<^verbatim>\<open>void handle_client_read(Client *clients, int list_index, fd_set *master_read_set,
  fd_set *master_write_set)\<close>
\<close>

definition handle_client_read :: "server \<Rightarrow> nat \<Rightarrow> recv_result \<Rightarrow> server" where
  "handle_client_read st list_index r =
     (let cfd = fd (clients st ! list_index);
          st0 = st\<lparr>trace := trace st @ [Recv cfd (recv_sys r)]\<rparr>
      in case recv_sys r of
           RecvErr e \<Rightarrow>
             if would_block e then st0
             else close_client (st0\<lparr>trace := trace st0 @ [Log ''recv'']\<rparr>) list_index
         | RecvOk buffer \<Rightarrow>
             if buffer = [] then
               close_client (st0\<lparr>trace := trace st0 @ [Log ''Client disconnected'']\<rparr>) list_index
             else
               let st1 = st0\<lparr>trace := trace st0 @ [Log ''Received bytes from client'']\<rparr>
               in (case write_buffer_append (write_buf (clients st1 ! list_index)) buffer of
                     Inl err \<Rightarrow>
                       close_client
                         (st1\<lparr>trace := trace st1 @
                            [Log ''Write buffer full, cannot append'',
                             Log ''Write buffer overflow, closing connection'']\<rparr>) list_index
                   | Inr buf' \<Rightarrow>
                       st1\<lparr>clients := (clients st1)[list_index :=
                              (clients st1 ! list_index)\<lparr>write_buf := buf'\<rparr>],
                           master_write_set := insert cfd (master_write_set st1)\<rparr>))"

subsection \<open>Write handler\<close>

text \<open>
  \<^verbatim>\<open>void handle_client_write(Client *clients, int list_index, fd_set *master_read_set,
  fd_set *master_write_set)\<close>. \<open>None\<close> when the flush does not return.
\<close>

definition handle_client_write :: "server \<Rightarrow> nat \<Rightarrow> send_result list \<Rightarrow> server option" where
  "handle_client_write st list_index script =
     (let cfd = fd (clients st ! list_index);
          buf = write_buf (clients st ! list_index)
      in case write_buffer_flush buf cfd script of
           None \<Rightarrow> None
         | Some (result, buf', evs) \<Rightarrow>
             let st1 = st\<lparr>clients := (clients st)[list_index :=
                              (clients st ! list_index)\<lparr>write_buf := buf'\<rparr>],
                          trace := trace st @ evs\<rparr>
             in if result = -1 then Some (close_client st1 list_index)
                else if result = 0 then
                  Some (st1\<lparr>master_write_set := master_write_set st1 - {cfd},
                            trace := trace st1 @ [Log ''Finished sending data to client'']\<rparr>)
                else Some st1)"

subsection \<open>Event loop\<close>

text \<open>
  \<^verbatim>\<open>select(nfds, &read_set, &write_set, NULL, NULL)\<close>: on success the two working
  copies keep the descriptors below \<^verbatim>\<open>nfds\<close> that the kernel finds ready, out of those
  that were set.
\<close>

definition select_sys ::
  "int \<Rightarrow> int set \<Rightarrow> int set \<Rightarrow> select_result \<Rightarrow> errno + (int set \<times> int set)" where
  "select_sys nfds rs ws r =
     (case r of
        SelectErr e \<Rightarrow> Inl e
      | SelectReady rr wr \<Rightarrow>
          Inr (Set.filter (\<lambda>x. x < nfds \<and> x \<in> rr) rs, Set.filter (\<lambda>x. x < nfds \<and> x \<in> wr) ws))"

text \<open>
  What the kernel answers during one iteration of the loop: to \<^verbatim>\<open>select\<close>, to the
  \<^verbatim>\<open>accept\<close> and \<^verbatim>\<open>fcntl\<close> of the acceptor, and to the \<^verbatim>\<open>recv\<close> and the
  \<^verbatim>\<open>send\<close>s of the handlers of each slot.
\<close>

record kernel =
  k_select :: select_result
  k_accept :: accept_result
  k_nonblock :: bool
  k_recv :: "nat \<Rightarrow> recv_result"
  k_send :: "nat \<Rightarrow> send_result list"

text \<open>The body of \<^verbatim>\<open>for (int i = 0; i < FD_SETSIZE; i++)\<close> in the loop, for one slot.\<close>

definition serve_client ::
  "server \<Rightarrow> int set \<Rightarrow> int set \<Rightarrow> kernel \<Rightarrow> nat \<Rightarrow> server option" where
  "serve_client st read_set write_set k i =
     (let cfd = fd (clients st ! i) in
      if cfd < 0 then Some st
      else
        let st1 = (if cfd \<in> read_set then handle_client_read st i (k_recv k i) else st)
        in if fd (clients st1 ! i) \<ge> 0 \<and> cfd \<in> write_set
           then handle_client_write st1 i (k_send k i)
           else Some st1)"

fun serve_clients ::
  "server \<Rightarrow> int set \<Rightarrow> int set \<Rightarrow> kernel \<Rightarrow> nat list \<Rightarrow> server option" where
  "serve_clients st read_set write_set k [] = Some st"
| "serve_clients st read_set write_set k (i # js) =
     (case serve_client st read_set write_set k i of
        None \<Rightarrow> None
      | Some st' \<Rightarrow> serve_clients st' read_set write_set k js)"

text \<open>
  The body of \<^verbatim>\<open>while (true)\<close> in \<^verbatim>\<open>run_server_with_select\<close>. Its result is
  \<open>Some r\<close> when the body returns \<open>r\<close> from the function and \<open>None\<close> when the loop goes
  on to its next iteration (at the end of the body, or by \<^verbatim>\<open>continue\<close>). The whole value
  is \<open>None\<close> when a flush of the iteration does not return.
\<close>

definition loop_body :: "int \<Rightarrow> server \<Rightarrow> kernel \<Rightarrow> (int option \<times> server) option" where
  "loop_body server_fd st k =
     (let st0 = st\<lparr>trace := trace st @ [Select (max_fd st + 1) (k_select k)]\<rparr> in
      case select_sys (max_fd st + 1) (master_read_set st) (master_write_set st) (k_select k) of
        Inl e \<Rightarrow>
          if e = EINTR then Some (None, st0)
          else Some (Some (-1), st0\<lparr>trace := trace st0 @ [Log ''select'']\<rparr>)
      | Inr (read_set, write_set) \<Rightarrow>
          let st1 = (if server_fd \<in> read_set
                     then handle_new_connection server_fd st0 (k_accept k) (k_nonblock k)
                     else st0)
          in (case serve_clients st1 read_set write_set k [0..<length (clients st1)] of
                None \<Rightarrow> None
              | Some st2 \<Rightarrow> Some (None, st2)))"

text \<open>
  The loop, one element of the list per iteration. It returns only when the body does;
  \<open>None\<close> says that it is still running when the answers run out, or that a flush did
  not return. The \<^verbatim>\<open>return 0\<close> behind the loop is never reached.
\<close>

fun event_loop :: "int \<Rightarrow> server \<Rightarrow> kernel list \<Rightarrow> (int \<times> server) option" where
  "event_loop server_fd st [] = None"
| "event_loop server_fd st (k # ks) =
     (case loop_body server_fd st k of
        None \<Rightarrow> None
      | Some (Some result, st') \<Rightarrow> Some (result, st')
      | Some (None, st') \<Rightarrow> event_loop server_fd st' ks)"

text \<open>
  The state when the loop starts. \<open>mem\<close> is the array \<^verbatim>\<open>clients\<close> as the stack holds
  it before the initialising loop, which sets \<^verbatim>\<open>fd\<close>, \<^verbatim>\<open>size\<close> and \<^verbatim>\<open>offset\<close> of every
  slot.
\<close>

definition init_server :: "int \<Rightarrow> Client list \<Rightarrow> server" where
  "init_server server_fd mem =
     \<lparr>clients = map (\<lambda>c. \<lparr>fd = -1, write_buf = init_write_buffer (write_buf c)\<rparr>) mem,
      master_read_set = {server_fd},
      master_write_set = {},
      max_fd = server_fd,
      trace = [Log ''Server ready, waiting for connections...'']\<rparr>"

definition run_server_with_select :: "int \<Rightarrow> Client list \<Rightarrow> kernel list \<Rightarrow> (int \<times> server) option" where
  "run_server_with_select server_fd mem ks = event_loop server_fd (init_server server_fd mem) ks"

text \<open>
  \<^verbatim>\<open>int main(void)\<close>, from the descriptor that \<^verbatim>\<open>create_server_hello_socket\<close> returns
  (it does not return when the start-up fails). The result is the value that \<^verbatim>\<open>main\<close>
  returns, with the trace of the whole run.
\<close>

definition main :: "int \<Rightarrow> Client list \<Rightarrow> kernel list \<Rightarrow> (int \<times> event list) option" where
  "main server_fd mem ks =
     (case run_server_with_select server_fd mem ks of
        None \<Rightarrow> None
      | Some (result, st) \<Rightarrow> Some (result, trace st @ [Close server_fd]))"

text \<open>The exit status that the parent process sees: the low eight bits of the value returned.\<close>

definition exit_status :: "int \<Rightarrow> int" where
  "exit_status r = r mod 256"

subsection \<open>What a trace says about one descriptor\<close>

text \<open>The bytes that the kernel took from \<^verbatim>\<open>send\<close> on a descriptor, in order.\<close>

fun bytes_sent :: "int \<Rightarrow> event list \<Rightarrow> byte list" where
  "bytes_sent f [] = []"
| "bytes_sent f (Send g bs # evs) = (if g = f then bs @ bytes_sent f evs else bytes_sent f evs)"
| "bytes_sent f (ev # evs) = bytes_sent f evs"

text \<open>The bytes that \<^verbatim>\<open>recv\<close> delivered from a descriptor, in order.\<close>

fun bytes_received :: "int \<Rightarrow> event list \<Rightarrow> byte list" where
  "bytes_received f [] = []"
| "bytes_received f (Recv g (RecvOk bs) # evs) =
     (if g = f then bs @ bytes_received f evs else bytes_received f evs)"
| "bytes_received f (ev # evs) = bytes_received f evs"

text \<open>The failed \<^verbatim>\<open>send\<close>s of a trace.\<close>

fun send_failures :: "event list \<Rightarrow> errno list" where
  "send_failures [] = []"
| "send_failures (SendFailed g e # evs) = e # send_failures evs"
| "send_failures (ev # evs) = send_failures evs"

text \<open>A buffer as the C type has it: the array has its length, and the counters are in range.\<close>

definition buffer_wf :: "WriteBuffer \<Rightarrow> bool" where
  "buffer_wf buf =
     (length (data buf) = MAX_PENDING_WRITES \<and> offset buf \<le> size_wb buf
      \<and> size_wb buf \<le> MAX_PENDING_WRITES)"

text \<open>
  A flush that stops before the buffer is drained: \<^verbatim>\<open>size\<close> is as it was,
  \<^verbatim>\<open>offset\<close> has advanced by the bytes that the kernel took, which are the first of the
  staged bytes, and staged bytes remain.
\<close>

definition flush_stopped :: "WriteBuffer \<Rightarrow> int \<Rightarrow> WriteBuffer \<Rightarrow> event list \<Rightarrow> bool" where
  "flush_stopped buf f buf' evs \<longleftrightarrow>
     size_wb buf' = size_wb buf \<and> offset buf' = offset buf + length (bytes_sent f evs)
     \<and> offset buf' < size_wb buf'
     \<and> prefix (bytes_sent f evs) (pending buf)"

subsection \<open>Observing a handler\<close>

text \<open>The events that a step from \<open>st\<close> to \<open>st'\<close> added to the trace.\<close>

definition new_events :: "server \<Rightarrow> server \<Rightarrow> event list" where
  "new_events st st' = drop (length (trace st)) (trace st')"

text \<open>The calls of \<^verbatim>\<open>recv\<close> and of \<^verbatim>\<open>accept\<close> in a trace.\<close>

fun recv_calls :: "event list \<Rightarrow> nat" where
  "recv_calls [] = 0"
| "recv_calls (Recv g r # evs) = Suc (recv_calls evs)"
| "recv_calls (ev # evs) = recv_calls evs"

fun accept_calls :: "event list \<Rightarrow> nat" where
  "accept_calls [] = 0"
| "accept_calls (Accept g a # evs) = Suc (accept_calls evs)"
| "accept_calls (ev # evs) = accept_calls evs"

text \<open>
  The connection of slot \<open>i\<close> is closed between \<open>st\<close> and \<open>st'\<close>: its descriptor is
  closed and cleared from both master sets, the slot is marked empty and its buffer is
  reset; nothing else changes in the table, in the sets or in \<^verbatim>\<open>max_fd\<close>.
\<close>

definition connection_closed :: "server \<Rightarrow> server \<Rightarrow> nat \<Rightarrow> bool" where
  "connection_closed st st' i \<longleftrightarrow>
     Close (fd (clients st ! i)) \<in> set (new_events st st')
     \<and> master_read_set st' = master_read_set st - {fd (clients st ! i)}
     \<and> master_write_set st' = master_write_set st - {fd (clients st ! i)}
     \<and> max_fd st' = max_fd st
     \<and> clients st' = (clients st)[i :=
          \<lparr>fd = -1, write_buf = (write_buf (clients st ! i))\<lparr>size_wb := 0, offset := 0\<rparr>\<rparr>]"

text \<open>Nothing but the trace differs between \<open>st\<close> and \<open>st'\<close>.\<close>

definition same_state :: "server \<Rightarrow> server \<Rightarrow> bool" where
  "same_state st st' \<longleftrightarrow>
     clients st' = clients st \<and> master_read_set st' = master_read_set st
     \<and> master_write_set st' = master_write_set st \<and> max_fd st' = max_fd st"

subsection \<open>Runs of the server\<close>

text \<open>
  The event loop changes the state through the acceptor and the two handlers only, and
  these close connections through \<^verbatim>\<open>close_client\<close>. A run is a sequence of such steps
  and of whole iterations of the loop, each with the kernel's answers. A step is refused (\<open>None\<close>) where the program does not
  make it: a handler on an empty slot (the loop skips slots with \<^verbatim>\<open>fd < 0\<close>), an index
  outside the table, or an answer that the kernel does not give, namely a new descriptor
  that is still open in the process (the listener, or the descriptor of an occupied slot).
\<close>

datatype server_op =
    OpAccept accept_result bool
  | OpRead nat recv_result
  | OpWrite nat "send_result list"
  | OpClose nat
  | OpIteration kernel

definition accept_fresh :: "int \<Rightarrow> server \<Rightarrow> accept_result \<Rightarrow> bool" where
  "accept_fresh server_fd st a =
     (case a of
        AcceptErr e \<Rightarrow> True
      | AcceptOk n \<Rightarrow> int n \<noteq> server_fd \<and> (\<forall>c \<in> set (clients st). fd c \<noteq> int n))"

definition server_step :: "int \<Rightarrow> server \<Rightarrow> server_op \<Rightarrow> server option" where
  "server_step server_fd st op =
     (case op of
        OpAccept a nb_ok \<Rightarrow>
          if accept_fresh server_fd st a
          then Some (handle_new_connection server_fd st a nb_ok) else None
      | OpRead i r \<Rightarrow>
          if i < length (clients st) \<and> 0 \<le> fd (clients st ! i)
          then Some (handle_client_read st i r) else None
      | OpWrite i script \<Rightarrow>
          if i < length (clients st) \<and> 0 \<le> fd (clients st ! i)
          then handle_client_write st i script else None
      | OpClose i \<Rightarrow>
          if i < length (clients st) then Some (close_client st i) else None
      | OpIteration k \<Rightarrow>
          if accept_fresh server_fd st (k_accept k)
          then map_option snd (loop_body server_fd st k) else None)"

fun server_run :: "int \<Rightarrow> server \<Rightarrow> server_op list \<Rightarrow> server option" where
  "server_run server_fd st [] = Some st"
| "server_run server_fd st (op # ops) =
     (case server_step server_fd st op of
        None \<Rightarrow> None
      | Some st' \<Rightarrow> server_run server_fd st' ops)"

text \<open>The steps that the handlers of slot \<open>i\<close> make.\<close>

fun on_slot :: "nat \<Rightarrow> server_op \<Rightarrow> bool" where
  "on_slot i (OpRead j r) = (j = i)"
| "on_slot i (OpWrite j script) = (j = i)"
| "on_slot i op = False"

text \<open>
  The invariant of the server state. For the listener: it is a descriptor, read-interest
  is registered for it, and \<^verbatim>\<open>max_fd\<close> is not below it. For every slot: the buffer is as
  its type has it; \<^verbatim>\<open>fd\<close> is -1 or a descriptor other than the listener, not above
  \<^verbatim>\<open>max_fd\<close>; the slot is occupied iff read-interest is registered for its \<^verbatim>\<open>fd\<close>;
  write-interest is registered only while bytes are staged; a buffer with nothing staged
  has \<open>size = 0\<close>; no other slot holds the same descriptor. The master read-set holds the listener and descriptors of slots only, the
  master write-set descriptors of occupied slots only.
\<close>

definition slot_inv :: "int \<Rightarrow> server \<Rightarrow> nat \<Rightarrow> bool" where
  "slot_inv server_fd st i \<longleftrightarrow>
     buffer_wf (write_buf (clients st ! i))
     \<and> -1 \<le> fd (clients st ! i) \<and> fd (clients st ! i) \<noteq> server_fd
     \<and> fd (clients st ! i) \<le> max_fd st
     \<and> (0 \<le> fd (clients st ! i) \<longleftrightarrow> fd (clients st ! i) \<in> master_read_set st)
     \<and> (fd (clients st ! i) \<in> master_write_set st
          \<longrightarrow> \<not> write_buffer_empty (write_buf (clients st ! i)))
     \<and> (write_buffer_empty (write_buf (clients st ! i))
          \<longrightarrow> size_wb (write_buf (clients st ! i)) = 0)
     \<and> (\<forall>j<length (clients st).
          0 \<le> fd (clients st ! i) \<and> fd (clients st ! j) = fd (clients st ! i) \<longrightarrow> j = i)"

definition server_inv :: "int \<Rightarrow> server \<Rightarrow> bool" where
  "server_inv server_fd st \<longleftrightarrow>
     0 \<le> server_fd \<and> server_fd \<le> max_fd st \<and> server_fd \<in> master_read_set st
     \<and> (\<forall>i<length (clients st). slot_inv server_fd st i)
     \<and> (\<forall>x \<in> master_read_set st.
          x = server_fd \<or> (\<exists>i<length (clients st). fd (clients st ! i) = x))
     \<and> (\<forall>x \<in> master_write_set st.
          0 \<le> x \<and> (\<exists>i<length (clients st). fd (clients st ! i) = x))"

text \<open>The array \<^verbatim>\<open>clients\<close> before it is initialised: every buffer has its array.\<close>

definition stack_memory :: "Client list \<Rightarrow> bool" where
  "stack_memory mem \<longleftrightarrow> (\<forall>c \<in> set mem. length (data (write_buf c)) = MAX_PENDING_WRITES)"

subsection \<open>Example states\<close>

text \<open>
  A table of two slots behind the listener 3: slot 0 holds descriptor 4 with three bytes
  staged, of which one is sent; slot 1 is empty.
\<close>

definition example_buffer :: WriteBuffer where
  "example_buffer = \<lparr>data = replicate MAX_PENDING_WRITES 0, size_wb = 0, offset = 0\<rparr>"

definition example_server :: server where
  "example_server =
     \<lparr>clients = [\<lparr>fd = 4, write_buf = example_buffer\<lparr>size_wb := 3, offset := 1\<rparr>\<rparr>,
                 \<lparr>fd = -1, write_buf = example_buffer\<rparr>],
      master_read_set = {3, 4},
      master_write_set = {4},
      max_fd = 4,
      trace = []\<rparr>"

text \<open>
  The stack before the loop starts: two slots with arbitrary counters. A run: descriptor
  4 is accepted, then two bytes arrive on slot 0.
\<close>

definition example_memory :: "Client list" where
  "example_memory = [\<lparr>fd = 0, write_buf = example_buffer\<lparr>size_wb := 7, offset := 9\<rparr>\<rparr>,
                     \<lparr>fd = 0, write_buf = example_buffer\<rparr>]"

definition example_ops :: "server_op list" where
  "example_ops = [OpAccept (AcceptOk 4) True, OpRead 0 (RecvOk [104, 105])]"

text \<open>
  Two iterations in which \<^verbatim>\<open>select\<close> fails: interrupted by a signal, then with
  \<^verbatim>\<open>EBADF\<close>.
\<close>

definition example_interrupted :: kernel where
  "example_interrupted =
     \<lparr>k_select = SelectErr EINTR, k_accept = AcceptErr EAGAIN, k_nonblock = True,
      k_recv = (\<lambda>i. RecvErr EAGAIN), k_send = (\<lambda>i. [])\<rparr>"

definition example_select_failed :: kernel where
  "example_select_failed = example_interrupted\<lparr>k_select := SelectErr EBADF\<rparr>"

text \<open>
  A connection from its acceptance on: descriptor 4 is accepted into slot 0 of a fresh
  table; two bytes arrive, one is sent before the socket blocks, a third byte arrives,
  and the socket then takes all that is staged.
\<close>

definition example_accepted :: server where
  "example_accepted =
     handle_new_connection 3 (init_server 3 example_memory) (AcceptOk 4) True"

definition example_echo :: "server_op list" where
  "example_echo =
     [OpRead 0 (RecvOk [104, 105]), OpWrite 0 [SendOk 1, SendErr EAGAIN],
      OpRead 0 (RecvOk [33]), OpWrite 0 [SendOk 5]]"

text \<open>
  The same connection with a buffer that fills up behind sent bytes: 4096 bytes arrive,
  4095 of them are sent before the socket blocks, 4096 more arrive, and then one byte.
\<close>

definition example_dead_space :: "server_op list" where
  "example_dead_space =
     [OpRead 0 (RecvOk (replicate 4096 65)), OpWrite 0 [SendOk 4095, SendErr EAGAIN],
      OpRead 0 (RecvOk (replicate 4096 66)), OpRead 0 (RecvOk [67])]"

text \<open>The bytes delivered from a descriptor and not yet sent back, counted in a trace.\<close>

definition in_flight :: "int \<Rightarrow> event list \<Rightarrow> nat" where
  "in_flight f evs = length (bytes_received f evs) - length (bytes_sent f evs)"

text \<open>
  The echo above, followed by one more byte: the state when the echo is complete and the
  buffer drained, and the state after the further byte.
\<close>

definition example_echo_more :: "server_op list" where
  "example_echo_more = example_echo @ [OpRead 0 (RecvOk [63])]"

definition example_drained :: server where
  "example_drained = the (server_run 3 example_accepted example_echo)"

definition example_refilled :: server where
  "example_refilled = the (server_run 3 example_accepted example_echo_more)"

section \<open>Properties\<close>

subsection \<open>Write buffer: append\<close>

lemma write_buffer_append_accepts_iff:
  "(\<exists>buf'. write_buffer_append buf bs = Inr buf') \<longleftrightarrow>
     size_wb buf + length bs \<le> MAX_PENDING_WRITES"
  by (simp add: write_buffer_append_def Let_def)

lemma write_buffer_append_post:
  assumes wf: "buffer_wf buf" and ok: "write_buffer_append buf bs = Inr buf'"
  shows "buffer_wf buf' \<and> pending buf' = pending buf @ bs
     \<and> (bs \<noteq> [] \<longrightarrow> \<not> write_buffer_empty buf')
     \<and> size_wb buf' \<le> size_wb buf + length bs"
proof -
  from ok have cap: "size_wb buf + length bs \<le> MAX_PENDING_WRITES"
    by (simp add: write_buffer_append_def Let_def split: if_splits)
  from wf have len: "length (data buf) = MAX_PENDING_WRITES"
    and os: "offset buf \<le> size_wb buf" and sm: "size_wb buf \<le> MAX_PENDING_WRITES"
    by (simp_all add: buffer_wf_def)
  show ?thesis
  proof (cases "size_wb buf \<le> offset buf")
    case True
    with os have eq: "offset buf = size_wb buf" by simp
    from True cap ok have b: "buf' = buf\<lparr>data := memcpy (data buf) 0 bs, size_wb := length bs, offset := 0\<rparr>"
      by (auto simp: write_buffer_append_def Let_def)
    from cap len have l2: "length bs \<le> length (data buf)" by simp
    have "pending buf = []" using eq by (simp add: pending_def)
    then show ?thesis using b l2 len cap
      by (simp add: buffer_wf_def pending_def memcpy_def write_buffer_empty_def)
  next
    case False
    with cap ok have b: "buf' = buf\<lparr>data := memcpy (data buf) (size_wb buf) bs,
        size_wb := size_wb buf + length bs\<rparr>"
      by (auto simp: write_buffer_append_def Let_def)
    from False have lt: "offset buf < size_wb buf" by simp
    have "pending buf' = pending buf @ bs"
      using b lt len sm cap by (simp add: pending_def memcpy_def drop_take)
    then show ?thesis using b lt len cap os
      by (simp add: buffer_wf_def memcpy_def write_buffer_empty_def)
  qed
qed

text \<open>
  C1. Required of \<^verbatim>\<open>write_buffer_append\<close>: a logically empty buffer (\<open>offset = size\<close>)
  is reset first, and the capacity test then reads the size after the reset, so that an
  append of at most \<open>MAX_PENDING_WRITES\<close> bytes into a fully drained buffer always
  succeeds. The function tests the capacity before the reset
  (\<open>write_buffer_append_accepts_iff\<close>): a drained buffer with \<open>size = offset = 5000\<close>
  refuses 4096 bytes, although it holds nothing. The server itself never holds such a
  buffer (\<open>write_buffer_append_in_server\<close> below), since every flush that drains a buffer
  resets it.
\<close>

theorem write_buffer_append_drained_refused:
  "write_buffer_append
     \<lparr>data = replicate MAX_PENDING_WRITES 0, size_wb = 5000, offset = 5000\<rparr>
     (replicate 4096 65) = Inl BufferFull"
  by (simp add: write_buffer_append_def MAX_PENDING_WRITES_def)

subsection \<open>Write buffer: flush\<close>

lemma pending_length: "buffer_wf buf \<Longrightarrow> length (pending buf) = size_wb buf - offset buf"
  unfolding pending_def buffer_wf_def by simp arith

lemma pending_advance:
  "pending (buf\<lparr>offset := offset buf + k\<rparr>) = drop k (pending buf)"
  by (simp add: pending_def drop_take add.commute)

lemma buffer_wf_advance:
  "buffer_wf buf \<Longrightarrow> k \<le> size_wb buf - offset buf \<Longrightarrow> buffer_wf (buf\<lparr>offset := offset buf + k\<rparr>)"
  unfolding buffer_wf_def by simp arith

lemma take_append_drop_taken: "take n xs @ drop (length (take n xs)) xs = xs"
  by (simp add: min_def)

lemma write_buffer_flush_post:
  "write_buffer_flush buf f script = Some (res, buf', evs) \<Longrightarrow> buffer_wf buf \<Longrightarrow>
     data buf' = data buf \<and>
     (res = 0 \<and> size_wb buf' = 0 \<and> offset buf' = 0 \<and> bytes_sent f evs = pending buf
        \<and> send_failures evs = []
      \<or> res = 1 \<and> flush_stopped buf f buf' evs \<and> (\<exists>e. would_block e \<and> send_failures evs = [e])
      \<or> res = -1 \<and> flush_stopped buf f buf' evs \<and> (\<exists>e. \<not> would_block e \<and> send_failures evs = [e]))"
proof (induction script arbitrary: buf res buf' evs)
  case Nil
  then show ?case by (clarsimp simp: pending_def split: if_splits)
next
  case (Cons r rs)
  show ?case
  proof (cases "offset buf < size_wb buf")
    case False
    with Cons.prems show ?thesis by (clarsimp simp: pending_def)
  next
    case True
    show ?thesis
    proof (cases r)
      case (SendErr e)
      with True Cons.prems show ?thesis
        by (cases "would_block e") (auto simp: send_sys_def flush_stopped_def)
    next
      case (SendOk n)
      define sent where "sent = take n (pending buf)"
      let ?buf1 = "buf\<lparr>offset := offset buf + length sent\<rparr>"
      from True SendOk Cons.prems(1) obtain evs1 where
        rec: "write_buffer_flush ?buf1 f rs = Some (res, buf', evs1)" and
        evs: "evs = Send f sent # evs1"
        unfolding sent_def by (auto simp: send_sys_def split: option.splits)
      have len: "length sent \<le> size_wb buf - offset buf"
        using Cons.prems(2) unfolding sent_def by (simp add: pending_length)
      have wf1: "buffer_wf ?buf1"
        using Cons.prems(2) len by (rule buffer_wf_advance)
      have p1: "pending ?buf1 = drop (length sent) (pending buf)"
        by (rule pending_advance)
      note IH = Cons.IH [OF rec wf1]
      have app: "sent @ drop (length sent) (pending buf) = pending buf"
        unfolding sent_def by (rule take_append_drop_taken)
      have stop: "flush_stopped buf f buf' evs" if "flush_stopped ?buf1 f buf' evs1"
      proof -
        let ?bs = "bytes_sent f evs1"
        from that have a: "size_wb buf' = size_wb buf"
          and b: "offset buf' = offset buf + length sent + length ?bs"
          and c: "offset buf' < size_wb buf'"
          and d: "prefix ?bs (drop (length sent) (pending buf))"
          unfolding flush_stopped_def p1 by simp_all
        from d have "prefix (sent @ ?bs) (sent @ drop (length sent) (pending buf))"
          by simp
        then have "prefix (sent @ ?bs) (pending buf)"
          unfolding app .
        with a b c show ?thesis unfolding flush_stopped_def evs by simp
      qed
      from IH have "data buf' = data buf" by simp
      moreover
      from IH have "res = 0 \<and> size_wb buf' = 0 \<and> offset buf' = 0 \<and> bytes_sent f evs1 = pending ?buf1
        \<and> send_failures evs1 = []
      \<or> res = 1 \<and> flush_stopped ?buf1 f buf' evs1 \<and> (\<exists>e. would_block e \<and> send_failures evs1 = [e])
      \<or> res = -1 \<and> flush_stopped ?buf1 f buf' evs1 \<and> (\<exists>e. \<not> would_block e \<and> send_failures evs1 = [e])"
        by blast
      then have "res = 0 \<and> size_wb buf' = 0 \<and> offset buf' = 0 \<and> bytes_sent f evs = pending buf
        \<and> send_failures evs = []
      \<or> res = 1 \<and> flush_stopped buf f buf' evs \<and> (\<exists>e. would_block e \<and> send_failures evs = [e])
      \<or> res = -1 \<and> flush_stopped buf f buf' evs \<and> (\<exists>e. \<not> would_block e \<and> send_failures evs = [e])"
      proof (elim disjE conjE)
        assume "res = 0" "size_wb buf' = 0" "offset buf' = 0" "bytes_sent f evs1 = pending ?buf1" "send_failures evs1 = []"
        then show ?thesis using app p1 evs by simp
      next
        assume "res = 1" "flush_stopped ?buf1 f buf' evs1" "\<exists>e. would_block e \<and> send_failures evs1 = [e]"
        then show ?thesis using stop evs by simp
      next
        assume "res = -1" "flush_stopped ?buf1 f buf' evs1" "\<exists>e. \<not> would_block e \<and> send_failures evs1 = [e]"
        then show ?thesis using stop evs by simp
      qed
      ultimately show ?thesis by blast
    qed
  qed
qed


lemma write_buffer_flush_drained:
  "\<not> offset buf < size_wb buf \<Longrightarrow>
     write_buffer_flush buf f script = Some (0, buf\<lparr>size_wb := 0, offset := 0\<rparr>, [])"
  by (cases script) simp_all

lemma write_buffer_flush_returns:
  "buffer_wf buf \<Longrightarrow> SendOk 0 \<notin> set script \<Longrightarrow> size_wb buf - offset buf \<le> length script \<Longrightarrow>
     \<exists>y. write_buffer_flush buf f script = Some y"
proof (induction script arbitrary: buf)
  case Nil
  then show ?case by simp
next
  case (Cons r rs)
  show ?case
  proof (cases "offset buf < size_wb buf")
    case False
    then show ?thesis by (simp add: write_buffer_flush_drained)
  next
    case True
    show ?thesis
    proof (cases r)
      case (SendErr e)
      with True show ?thesis by (simp add: send_sys_def)
    next
      case (SendOk n)
      define sent where "sent = take n (pending buf)"
      let ?buf1 = "buf\<lparr>offset := offset buf + length sent\<rparr>"
      from SendOk Cons.prems(2) have "0 < n" by (cases n) auto
      with True Cons.prems(1) have pos: "0 < length sent" and le: "length sent \<le> size_wb buf - offset buf"
        unfolding sent_def by (simp_all add: pending_length)
      have wf1: "buffer_wf ?buf1"
        using Cons.prems(1) le by (rule buffer_wf_advance)
      from pos have "1 \<le> length sent" by (cases sent) simp_all
      with Cons.prems(3) have "size_wb buf - (offset buf + length sent) \<le> length rs"
        by simp
      then have "size_wb ?buf1 - offset ?buf1 \<le> length rs"
        by simp
      with Cons.IH [OF wf1] Cons.prems(2) obtain y where
        "write_buffer_flush ?buf1 f rs = Some y" by auto
      with True SendOk show ?thesis
        unfolding sent_def by (cases y) (simp add: send_sys_def)
    qed
  qed
qed

lemma write_buffer_flush_returns_on_error:
  "SendErr e \<in> set script \<Longrightarrow> \<exists>y. write_buffer_flush buf f script = Some y"
proof (induction script arbitrary: buf)
  case Nil
  then show ?case by simp
next
  case (Cons r rs)
  show ?case
  proof (cases "offset buf < size_wb buf")
    case False
    then show ?thesis by (simp add: write_buffer_flush_drained)
  next
    case True
    show ?thesis
    proof (cases r)
      case (SendErr e')
      with True show ?thesis by (simp add: send_sys_def)
    next
      case (SendOk n)
      with Cons.prems have "SendErr e \<in> set rs" by simp
      from Cons.IH [OF this] obtain y where
        "write_buffer_flush (buf\<lparr>offset := offset buf + length (take n (pending buf))\<rparr>) f rs = Some y"
        by blast
      with True SendOk show ?thesis
        by (cases y) (simp add: send_sys_def)
    qed
  qed
qed

subsection \<open>Closing a connection\<close>

lemma new_events_append: "trace st' = trace st @ evs \<Longrightarrow> new_events st st' = evs"
  by (simp add: new_events_def)

lemma close_client_empty_slot: "fd (clients st ! i) < 0 \<Longrightarrow> close_client st i = st"
  by (simp add: close_client_def)

lemma close_client_occupied:
  "0 \<le> fd (clients st ! i) \<Longrightarrow>
     close_client st i =
       st\<lparr>clients := (clients st)[i :=
              \<lparr>fd = -1, write_buf = (write_buf (clients st ! i))\<lparr>size_wb := 0, offset := 0\<rparr>\<rparr>],
          master_read_set := master_read_set st - {fd (clients st ! i)},
          master_write_set := master_write_set st - {fd (clients st ! i)},
          trace := trace st @ [Log ''Closing client'', Close (fd (clients st ! i))]\<rparr>"
  by (simp add: close_client_def init_write_buffer_def Let_def)

lemma close_client_idem:
  "i < length (clients st) \<Longrightarrow> close_client (close_client st i) i = close_client st i"
proof (cases "0 \<le> fd (clients st ! i)")
  case False
  then show ?thesis by (simp add: close_client_empty_slot)
next
  case True
  assume "i < length (clients st)"
  with True have "fd (clients (close_client st i) ! i) < 0"
    by (simp add: close_client_occupied)
  then show ?thesis by (rule close_client_empty_slot)
qed

lemma close_client_after_events:
  "0 \<le> fd (clients st ! i) \<Longrightarrow>
     connection_closed st (close_client (st\<lparr>trace := trace st @ evs\<rparr>) i) i"
  by (simp add: close_client_occupied connection_closed_def new_events_def)

text \<open>
  C8. Closing an occupied slot closes the descriptor, clears it from both master sets,
  marks the slot with -1 and resets the buffer to \<open>size = 0\<close>, \<open>offset = 0\<close>; nothing else
  changes. A second close of the same slot changes nothing.
\<close>

theorem close_client_effect_and_idempotent:
  "i < length (clients st) \<Longrightarrow>
     (0 \<le> fd (clients st ! i) \<longrightarrow>
        Close (fd (clients st ! i)) \<in> set (new_events st (close_client st i))
        \<and> fd (clients st ! i) \<notin> master_read_set (close_client st i)
        \<and> fd (clients st ! i) \<notin> master_write_set (close_client st i)
        \<and> fd (clients (close_client st i) ! i) = -1
        \<and> size_wb (write_buf (clients (close_client st i) ! i)) = 0
        \<and> offset (write_buf (clients (close_client st i) ! i)) = 0
        \<and> connection_closed st (close_client st i) i)
     \<and> close_client (close_client st i) i = close_client st i"
  using close_client_idem [of i st]
  by (simp add: close_client_occupied new_events_def connection_closed_def)

theorem close_client_witness:
  "0 < length (clients example_server) \<and> 0 \<le> fd (clients example_server ! 0)
   \<and> fd (clients (close_client example_server 0) ! 0) = -1
   \<and> 4 \<notin> master_read_set (close_client example_server 0)
   \<and> close_client (close_client example_server 0) 0 = close_client example_server 0"
  using close_client_effect_and_idempotent [of 0 example_server]
  by (simp add: example_server_def)

subsection \<open>Read handler\<close>

text \<open>
  C3. On an occupied slot the read handler calls \<^verbatim>\<open>recv\<close> once. A positive count is
  appended to the buffer of the slot: when the append is refused the connection is
  closed, otherwise the bytes are staged behind those already pending and write-interest
  is armed for the descriptor. A count of zero closes the connection. A failure with
  \<^verbatim>\<open>EAGAIN\<close> or \<^verbatim>\<open>EWOULDBLOCK\<close> changes nothing; any other failure closes the
  connection.
\<close>

theorem handle_client_read_cases:
  assumes "i < length (clients st)" and "0 \<le> fd (clients st ! i)"
    and "buffer_wf (write_buf (clients st ! i))"
  shows "recv_calls (new_events st (handle_client_read st i r)) = 1
     \<and> (case recv_sys r of
          RecvOk bs \<Rightarrow>
            if bs = [] then connection_closed st (handle_client_read st i r) i
            else (case write_buffer_append (write_buf (clients st ! i)) bs of
                    Inl err \<Rightarrow> connection_closed st (handle_client_read st i r) i
                  | Inr buf' \<Rightarrow>
                      clients (handle_client_read st i r) =
                        (clients st)[i := (clients st ! i)\<lparr>write_buf := buf'\<rparr>]
                      \<and> pending buf' = pending (write_buf (clients st ! i)) @ bs
                      \<and> master_write_set (handle_client_read st i r) =
                          insert (fd (clients st ! i)) (master_write_set st)
                      \<and> master_read_set (handle_client_read st i r) = master_read_set st
                      \<and> max_fd (handle_client_read st i r) = max_fd st
                      \<and> Close (fd (clients st ! i)) \<notin> set (new_events st (handle_client_read st i r)))
        | RecvErr e \<Rightarrow>
            if would_block e then same_state st (handle_client_read st i r)
            else connection_closed st (handle_client_read st i r) i)"
proof (cases "recv_sys r")
  case (RecvErr e)
  show ?thesis
  proof (cases "would_block e")
    case True
    with RecvErr show ?thesis
      by (simp add: handle_client_read_def Let_def same_state_def new_events_def)
  next
    case False
    have "connection_closed st (close_client (st\<lparr>trace := trace st @ [Recv (fd (clients st ! i)) (RecvErr e), Log ''recv'']\<rparr>) i) i"
      using assms(2) by (rule close_client_after_events)
    with False RecvErr assms(2) show ?thesis
      by (simp add: handle_client_read_def Let_def close_client_occupied new_events_def)
  qed
next
  case (RecvOk bs)
  show ?thesis
  proof (cases "bs = []")
    case True
    have "connection_closed st (close_client (st\<lparr>trace := trace st @ [Recv (fd (clients st ! i)) (RecvOk []), Log ''Client disconnected'']\<rparr>) i) i"
      using assms(2) by (rule close_client_after_events)
    with True RecvOk assms(2) show ?thesis
      by (simp add: handle_client_read_def Let_def close_client_occupied new_events_def)
  next
    case False
    show ?thesis
    proof (cases "write_buffer_append (write_buf (clients st ! i)) bs")
      case (Inl err)
      have "connection_closed st (close_client (st\<lparr>trace := trace st @
          [Recv (fd (clients st ! i)) (RecvOk bs), Log ''Received bytes from client'',
           Log ''Write buffer full, cannot append'',
           Log ''Write buffer overflow, closing connection'']\<rparr>) i) i"
        using assms(2) by (rule close_client_after_events)
      with False RecvOk Inl assms(2) show ?thesis
        by (simp add: handle_client_read_def Let_def close_client_occupied new_events_def)
    next
      case (Inr buf')
      from write_buffer_append_post [OF assms(3) Inr]
      have "pending buf' = pending (write_buf (clients st ! i)) @ bs" by simp
      with False RecvOk Inr show ?thesis
        by (simp add: handle_client_read_def Let_def new_events_def)
    qed
  qed
qed

lemma example_server_slot0:
  "0 < length (clients example_server)" "0 \<le> fd (clients example_server ! 0)"
  "buffer_wf (write_buf (clients example_server ! 0))"
  by (simp_all add: example_server_def example_buffer_def buffer_wf_def MAX_PENDING_WRITES_def)

theorem handle_client_read_witness:
  "0 < length (clients example_server) \<and> 0 \<le> fd (clients example_server ! 0)
   \<and> buffer_wf (write_buf (clients example_server ! 0))
   \<and> recv_calls (new_events example_server
         (handle_client_read example_server 0 (RecvOk [104, 105]))) = 1
   \<and> master_write_set (handle_client_read example_server 0 (RecvOk [104, 105])) = {4}
   \<and> connection_closed example_server (handle_client_read example_server 0 (RecvOk [])) 0
   \<and> same_state example_server (handle_client_read example_server 0 (RecvErr EAGAIN))
   \<and> connection_closed example_server (handle_client_read example_server 0 (RecvErr ECONNRESET)) 0"
  using handle_client_read_cases [OF example_server_slot0, of "RecvOk [104, 105]"]
    handle_client_read_cases [OF example_server_slot0, of "RecvOk []"]
    handle_client_read_cases [OF example_server_slot0, of "RecvErr EAGAIN"]
    handle_client_read_cases [OF example_server_slot0, of "RecvErr ECONNRESET"]
    example_server_slot0
  by (simp add: recv_sys_def BUFFER_SIZE_def would_block_def write_buffer_append_def
      example_server_def example_buffer_def MAX_PENDING_WRITES_def)

subsection \<open>Write handler\<close>

lemma flush_stopped_buffer:
  "flush_stopped buf f buf' evs \<Longrightarrow> data buf' = data buf \<Longrightarrow>
     buf' = buf\<lparr>offset := offset buf + length (bytes_sent f evs)\<rparr>"
  by (simp add: flush_stopped_def)

lemma handle_client_write_done:
  assumes "write_buffer_flush (write_buf (clients st ! i)) (fd (clients st ! i)) script
             = Some (0, buf', evs)"
  shows "handle_client_write st i script =
           Some (st\<lparr>clients := (clients st)[i := (clients st ! i)\<lparr>write_buf := buf'\<rparr>],
                    master_write_set := master_write_set st - {fd (clients st ! i)},
                    trace := trace st @ evs @ [Log ''Finished sending data to client'']\<rparr>)"
  using assms by (simp add: handle_client_write_def Let_def)

lemma handle_client_write_partial:
  assumes "write_buffer_flush (write_buf (clients st ! i)) (fd (clients st ! i)) script
             = Some (1, buf', evs)"
  shows "handle_client_write st i script =
           Some (st\<lparr>clients := (clients st)[i := (clients st ! i)\<lparr>write_buf := buf'\<rparr>],
                    trace := trace st @ evs\<rparr>)"
  using assms by (simp add: handle_client_write_def Let_def)

lemma handle_client_write_error:
  assumes "write_buffer_flush (write_buf (clients st ! i)) (fd (clients st ! i)) script
             = Some (-1, buf', evs)"
    and "i < length (clients st)" and "0 \<le> fd (clients st ! i)"
  shows "handle_client_write st i script =
           Some (st\<lparr>clients := (clients st)[i :=
                      \<lparr>fd = -1, write_buf = buf'\<lparr>size_wb := 0, offset := 0\<rparr>\<rparr>],
                    master_read_set := master_read_set st - {fd (clients st ! i)},
                    master_write_set := master_write_set st - {fd (clients st ! i)},
                    trace := trace st @ evs @ [Log ''Closing client'', Close (fd (clients st ! i))]\<rparr>)"
  using assms by (simp add: handle_client_write_def Let_def close_client_occupied)

lemma write_buffer_flush_error_closes:
  assumes i: "i < length (clients st)" and f: "0 \<le> fd (clients st ! i)"
    and wf: "buffer_wf (write_buf (clients st ! i))"
    and fl: "write_buffer_flush (write_buf (clients st ! i)) (fd (clients st ! i)) script
               = Some (-1, buf', evs)"
  shows "\<exists>st'. handle_client_write st i script = Some st' \<and> connection_closed st st' i
           \<and> new_events st st' = evs @ [Log ''Closing client'', Close (fd (clients st ! i))]"
proof -
  from write_buffer_flush_post [OF fl wf]
  have d: "data buf' = data (write_buf (clients st ! i))"
    and s: "flush_stopped (write_buf (clients st ! i)) (fd (clients st ! i)) buf' evs"
    by simp_all
  from flush_stopped_buffer [OF s d]
  have "buf'\<lparr>size_wb := 0, offset := 0\<rparr> = (write_buf (clients st ! i))\<lparr>size_wb := 0, offset := 0\<rparr>"
    by simp
  then show ?thesis
    unfolding handle_client_write_error [OF fl i f]
    by (simp add: connection_closed_def new_events_def)
qed

text \<open>
  C4. A flush of a well-formed buffer returns whenever the kernel makes progress (every
  answer takes at least one byte and there are enough answers) or reports an error, and
  it returns one of three results. 0 (Done): no \<^verbatim>\<open>send\<close> failed, all staged bytes were
  sent, the buffer is reset to \<open>size = 0\<close>, \<open>offset = 0\<close>, and the write handler clears
  the descriptor from the master write-set. 1 (Partial): the last \<^verbatim>\<open>send\<close> failed with
  \<^verbatim>\<open>EAGAIN\<close> or \<^verbatim>\<open>EWOULDBLOCK\<close>, \<open>offset\<close> has advanced by the bytes sent before, and
  the handler leaves the master write-set as it is. -1 (Error): the last \<^verbatim>\<open>send\<close> failed
  with another error, and the handler closes the connection.
\<close>

theorem flush_outcomes_and_write_handler:
  assumes "i < length (clients st)" and "0 \<le> fd (clients st ! i)"
    and "buffer_wf (write_buf (clients st ! i))"
    and "buf = write_buf (clients st ! i)" and "f = fd (clients st ! i)"
  shows "((SendOk 0 \<notin> set script \<and> size_wb buf - offset buf \<le> length script
           \<or> (\<exists>e. SendErr e \<in> set script))
          \<longrightarrow> (\<exists>y. write_buffer_flush buf f script = Some y))
     \<and> (\<forall>res buf' evs. write_buffer_flush buf f script = Some (res, buf', evs) \<longrightarrow>
          (res = 0 \<and> send_failures evs = [] \<and> bytes_sent f evs = pending buf
             \<and> size_wb buf' = 0 \<and> offset buf' = 0
             \<and> handle_client_write st i script =
                 Some (st\<lparr>clients := (clients st)[i := (clients st ! i)\<lparr>write_buf := buf'\<rparr>],
                          master_write_set := master_write_set st - {f},
                          trace := trace st @ evs @ [Log ''Finished sending data to client'']\<rparr>)
           \<or> res = 1 \<and> (\<exists>e. would_block e \<and> send_failures evs = [e])
             \<and> flush_stopped buf f buf' evs
             \<and> handle_client_write st i script =
                 Some (st\<lparr>clients := (clients st)[i := (clients st ! i)\<lparr>write_buf := buf'\<rparr>],
                          trace := trace st @ evs\<rparr>)
           \<or> res = -1 \<and> (\<exists>e. \<not> would_block e \<and> send_failures evs = [e])
             \<and> (\<exists>st'. handle_client_write st i script = Some st'
                    \<and> connection_closed st st' i)))"
proof (intro conjI impI allI)
  assume "SendOk 0 \<notin> set script \<and> size_wb buf - offset buf \<le> length script
           \<or> (\<exists>e. SendErr e \<in> set script)"
  then show "\<exists>y. write_buffer_flush buf f script = Some y"
    using assms(3,4) write_buffer_flush_returns [of buf script f]
      write_buffer_flush_returns_on_error [of _ script buf f]
    by blast
next
  fix res buf' evs
  assume fl: "write_buffer_flush buf f script = Some (res, buf', evs)"
  from assms(3,4) have wf: "buffer_wf buf" by simp
  from fl assms(4,5) have fl': "write_buffer_flush (write_buf (clients st ! i))
      (fd (clients st ! i)) script = Some (res, buf', evs)" by simp
  from write_buffer_flush_post [OF fl wf]
  consider
    (drained) "res = 0" "size_wb buf' = 0" "offset buf' = 0" "bytes_sent f evs = pending buf"
      "send_failures evs = []"
  | (blocked) "res = 1" "flush_stopped buf f buf' evs" "\<exists>e. would_block e \<and> send_failures evs = [e]"
  | (failed) "res = -1" "flush_stopped buf f buf' evs" "\<exists>e. \<not> would_block e \<and> send_failures evs = [e]"
    by (elim conjE disjE) simp_all
  then show "res = 0 \<and> send_failures evs = [] \<and> bytes_sent f evs = pending buf
             \<and> size_wb buf' = 0 \<and> offset buf' = 0
             \<and> handle_client_write st i script =
                 Some (st\<lparr>clients := (clients st)[i := (clients st ! i)\<lparr>write_buf := buf'\<rparr>],
                          master_write_set := master_write_set st - {f},
                          trace := trace st @ evs @ [Log ''Finished sending data to client'']\<rparr>)
           \<or> res = 1 \<and> (\<exists>e. would_block e \<and> send_failures evs = [e])
             \<and> flush_stopped buf f buf' evs
             \<and> handle_client_write st i script =
                 Some (st\<lparr>clients := (clients st)[i := (clients st ! i)\<lparr>write_buf := buf'\<rparr>],
                          trace := trace st @ evs\<rparr>)
           \<or> res = -1 \<and> (\<exists>e. \<not> would_block e \<and> send_failures evs = [e])
             \<and> (\<exists>st'. handle_client_write st i script = Some st'
                    \<and> connection_closed st st' i)"
  proof cases
    case drained
    with handle_client_write_done [of st i script buf' evs] fl' assms(5)
    show ?thesis by simp
  next
    case blocked
    with handle_client_write_partial [of st i script buf' evs] fl' assms(5)
    show ?thesis by simp
  next
    case failed
    with write_buffer_flush_error_closes [OF assms(1,2,3), of script buf' evs] fl'
    show ?thesis by auto
  qed
qed

text \<open>
  C10. When the flush returns -1, \<open>size\<close> is as it was and \<open>offset\<close> has advanced by
  the bytes that the earlier \<^verbatim>\<open>send\<close>s of this flush transmitted, which are the first
  of the staged bytes; staged bytes remain, so the buffer is not reset by the flush. The
  write handler then closes the connection, and that resets the buffer.
\<close>

theorem flush_error_keeps_progress:
  assumes "i < length (clients st)" and "0 \<le> fd (clients st ! i)"
    and "buffer_wf (write_buf (clients st ! i))"
    and "buf = write_buf (clients st ! i)" and "f = fd (clients st ! i)"
    and "write_buffer_flush buf f script = Some (-1, buf', evs)"
  shows "size_wb buf' = size_wb buf
     \<and> offset buf' = offset buf + length (bytes_sent f evs)
     \<and> prefix (bytes_sent f evs) (pending buf)
     \<and> offset buf' < size_wb buf'
     \<and> data buf' = data buf
     \<and> (\<exists>e. \<not> would_block e \<and> send_failures evs = [e])
     \<and> (\<exists>st'. handle_client_write st i script = Some st'
           \<and> connection_closed st st' i
           \<and> size_wb (write_buf (clients st' ! i)) = 0
           \<and> offset (write_buf (clients st' ! i)) = 0)"
proof -
  from assms(3,4) have wf: "buffer_wf buf" by simp
  from write_buffer_flush_post [OF assms(6) wf]
  have d: "data buf' = data buf" and s: "flush_stopped buf f buf' evs"
    and e: "\<exists>e. \<not> would_block e \<and> send_failures evs = [e]"
    by simp_all
  from assms(4,5,6) have "write_buffer_flush (write_buf (clients st ! i))
      (fd (clients st ! i)) script = Some (-1, buf', evs)" by simp
  from write_buffer_flush_error_closes [OF assms(1,2,3) this]
  obtain st' where h: "handle_client_write st i script = Some st'"
    and c: "connection_closed st st' i" by blast
  from c assms(1) have "size_wb (write_buf (clients st' ! i)) = 0
      \<and> offset (write_buf (clients st' ! i)) = 0"
    by (simp add: connection_closed_def)
  with d s e h c show ?thesis
    by (simp add: flush_stopped_def)
qed

lemma example_flush_failed:
  "write_buffer_flush (write_buf (clients example_server ! 0)) (fd (clients example_server ! 0))
     [SendOk 1, SendErr EPIPE]
     = Some (-1, example_buffer\<lparr>size_wb := 3, offset := 2\<rparr>,
             [Send 4 [0], SendFailed 4 EPIPE, Log ''send''])"
  by (simp add: example_server_def example_buffer_def send_sys_def pending_def would_block_def
    MAX_PENDING_WRITES_def)

theorem flush_outcomes_witness:
  "0 < length (clients example_server) \<and> 0 \<le> fd (clients example_server ! 0)
   \<and> buffer_wf (write_buf (clients example_server ! 0))
   \<and> handle_client_write example_server 0 [SendOk 1, SendOk 7] =
       Some (example_server\<lparr>clients := (clients example_server)
                 [0 := (clients example_server ! 0)\<lparr>write_buf := example_buffer\<rparr>],
               master_write_set := {},
               trace := [Send 4 [0], Send 4 [0], Log ''Finished sending data to client'']\<rparr>)
   \<and> handle_client_write example_server 0 [SendOk 1, SendErr EAGAIN] =
       Some (example_server\<lparr>clients := (clients example_server)
                 [0 := (clients example_server ! 0)
                    \<lparr>write_buf := example_buffer\<lparr>size_wb := 3, offset := 2\<rparr>\<rparr>],
               trace := [Send 4 [0], SendFailed 4 EAGAIN]\<rparr>)
   \<and> (\<exists>st'. handle_client_write example_server 0 [SendOk 1, SendErr EPIPE] = Some st'
          \<and> connection_closed example_server st' 0)"
  using flush_outcomes_and_write_handler [OF example_server_slot0 refl refl, of "[SendOk 1, SendOk 7]"]
    flush_outcomes_and_write_handler [OF example_server_slot0 refl refl, of "[SendOk 1, SendErr EAGAIN]"]
    flush_outcomes_and_write_handler [OF example_server_slot0 refl refl, of "[SendOk 1, SendErr EPIPE]"]
    example_server_slot0
  by (simp add: example_server_def example_buffer_def send_sys_def pending_def would_block_def
    MAX_PENDING_WRITES_def)

theorem flush_error_witness:
  "0 < length (clients example_server) \<and> 0 \<le> fd (clients example_server ! 0)
   \<and> buffer_wf (write_buf (clients example_server ! 0))
   \<and> write_buffer_flush (write_buf (clients example_server ! 0)) (fd (clients example_server ! 0))
        [SendOk 1, SendErr EPIPE]
        = Some (-1, example_buffer\<lparr>size_wb := 3, offset := 2\<rparr>,
             [Send 4 [0], SendFailed 4 EPIPE, Log ''send''])
   \<and> (\<exists>st'. handle_client_write example_server 0 [SendOk 1, SendErr EPIPE] = Some st'
          \<and> connection_closed example_server st' 0
          \<and> size_wb (write_buf (clients st' ! 0)) = 0
          \<and> offset (write_buf (clients st' ! 0)) = 0)"
  using flush_error_keeps_progress [OF example_server_slot0 refl refl example_flush_failed]
    example_server_slot0 example_flush_failed
  by simp

subsection \<open>Acceptor\<close>

lemma find_free_slot_Some:
  "find_free_slot cs = Some i \<Longrightarrow>
     i < length cs \<and> fd (cs ! i) < 0 \<and> (\<forall>j<i. 0 \<le> fd (cs ! j))"
proof (induction cs arbitrary: i)
  case Nil
  then show ?case by simp
next
  case (Cons c cs)
  show ?case
  proof (cases "fd c < 0")
    case True
    with Cons.prems show ?thesis by simp
  next
    case False
    with Cons.prems obtain k where k: "find_free_slot cs = Some k" and i: "i = Suc k"
      by auto
    from Cons.IH [OF k] False i show ?thesis
      by (auto simp: nth_Cons split: nat.splits)
  qed
qed

lemma find_free_slot_None:
  "find_free_slot cs = None \<longleftrightarrow> (\<forall>j<length cs. 0 \<le> fd (cs ! j))"
proof (induction cs)
  case Nil
  then show ?case by simp
next
  case (Cons c cs)
  show ?case
  proof (cases "fd c < 0")
    case True
    then show ?thesis by auto
  next
    case False
    then have "(\<forall>j<length (c # cs). 0 \<le> fd ((c # cs) ! j)) \<longleftrightarrow> (\<forall>j<length cs. 0 \<le> fd (cs ! j))"
      by (auto simp: nth_Cons split: nat.splits)
    with Cons.IH False show ?thesis by simp
  qed
qed

lemma find_free_slot_least:
  assumes "i < length cs" and "fd (cs ! i) < 0" and "\<forall>j<i. 0 \<le> fd (cs ! j)"
  shows "find_free_slot cs = Some i"
proof (cases "find_free_slot cs")
  case None
  with assms(1,2) show ?thesis by (auto simp: find_free_slot_None)
next
  case (Some k)
  from find_free_slot_Some [OF Some]
  have k: "k < length cs" "fd (cs ! k) < 0" "\<forall>j<k. 0 \<le> fd (cs ! j)" by simp_all
  have "k = i"
  proof (rule ccontr)
    assume "k \<noteq> i"
    then consider "k < i" | "i < k" by linarith
    then show False
    proof cases
      case 1
      with assms(3) k(2) show False by auto
    next
      case 2
      with k(3) assms(2) show False by auto
    qed
  qed
  with Some show ?thesis by simp
qed

lemma handle_new_connection_error:
  "handle_new_connection s st (AcceptErr e) nb_ok =
     st\<lparr>trace := trace st @ Accept s (AcceptErr e) # (if would_block e then [] else [Log ''accept''])\<rparr>"
  by (simp add: handle_new_connection_def)

lemma handle_new_connection_abandoned:
  "handle_new_connection s st (AcceptOk n) False =
     st\<lparr>trace := trace st @ [Accept s (AcceptOk n), SetNonblocking (int n) False,
                              Log ''fcntl'', Close (int n)]\<rparr>"
  by (simp add: handle_new_connection_def Let_def)

lemma handle_new_connection_installed:
  "find_free_slot (clients st) = Some i \<Longrightarrow>
   handle_new_connection s st (AcceptOk n) True =
     st\<lparr>clients := (clients st)[i :=
            \<lparr>fd = int n, write_buf = (write_buf (clients st ! i))\<lparr>size_wb := 0, offset := 0\<rparr>\<rparr>],
        master_read_set := insert (int n) (master_read_set st),
        max_fd := max (max_fd st) (int n),
        trace := trace st @ [Accept s (AcceptOk n), SetNonblocking (int n) True,
                             Log ''New client connected'']\<rparr>"
  by (simp add: handle_new_connection_def Let_def init_write_buffer_def max_def)

lemma handle_new_connection_rejected:
  "find_free_slot (clients st) = None \<Longrightarrow>
   handle_new_connection s st (AcceptOk n) True =
     st\<lparr>master_read_set := master_read_set st - {int n},
        max_fd := max (max_fd st) (int n),
        trace := trace st @ [Accept s (AcceptOk n), SetNonblocking (int n) True,
                             Log ''Too many clients, rejecting connection'', Close (int n)]\<rparr>"
  by (simp add: handle_new_connection_def Let_def max_def)

lemma accept_calls_append: "accept_calls (xs @ ys) = accept_calls xs + accept_calls ys"
  by (induction xs rule: accept_calls.induct) simp_all

lemma close_client_no_accept:
  "\<exists>evs. trace (close_client st i) = trace st @ evs \<and> accept_calls evs = 0"
  by (simp add: close_client_def Let_def)

lemma handle_client_read_no_accept:
  "\<exists>evs. trace (handle_client_read st i r) = trace st @ evs \<and> accept_calls evs = 0"
  by (simp add: handle_client_read_def close_client_def Let_def
      split: recv_result.splits sum.splits)

lemma write_buffer_flush_no_accept:
  "write_buffer_flush buf f script = Some (res, buf', evs) \<Longrightarrow> accept_calls evs = 0"
proof (induction script arbitrary: buf res buf' evs)
  case Nil
  then show ?case by (auto split: if_splits)
next
  case (Cons r rs)
  show ?case
  proof (cases "offset buf < size_wb buf")
    case False
    with Cons.prems show ?thesis by auto
  next
    case True
    show ?thesis
    proof (cases r)
      case (SendErr e)
      with True Cons.prems show ?thesis
        by (cases "would_block e") (auto simp: send_sys_def)
    next
      case (SendOk n)
      with True Cons.prems obtain evs1 where
        rec: "write_buffer_flush (buf\<lparr>offset := offset buf + length (take n (pending buf))\<rparr>) f rs
                = Some (res, buf', evs1)"
        and evs: "evs = Send f (take n (pending buf)) # evs1"
        by (auto simp: send_sys_def split: option.splits)
      from Cons.IH [OF rec] evs show ?thesis by simp
    qed
  qed
qed

lemma handle_client_write_no_accept:
  assumes "handle_client_write st i script = Some st'"
  shows "\<exists>evs. trace st' = trace st @ evs \<and> accept_calls evs = 0"
proof -
  from assms obtain res buf' evs where
    fl: "write_buffer_flush (write_buf (clients st ! i)) (fd (clients st ! i)) script
           = Some (res, buf', evs)"
    by (auto simp: handle_client_write_def Let_def split: option.splits)
  from write_buffer_flush_no_accept [OF fl] have "accept_calls evs = 0" .
  with assms fl show ?thesis
    by (auto simp: handle_client_write_def close_client_def Let_def accept_calls_append
        split: if_splits)
qed

lemma serve_client_no_accept:
  assumes "serve_client st rs ws k i = Some st'"
  shows "\<exists>evs. trace st' = trace st @ evs \<and> accept_calls evs = 0"
proof (cases "fd (clients st ! i) < 0")
  case True
  with assms have "st' = st" by (simp add: serve_client_def)
  then show ?thesis by simp
next
  case False
  define st1 where "st1 = (if fd (clients st ! i) \<in> rs
    then handle_client_read st i (k_recv k i) else st)"
  have "\<exists>evs. trace st1 = trace st @ evs \<and> accept_calls evs = 0"
  proof (cases "fd (clients st ! i) \<in> rs")
    case True
    then have "st1 = handle_client_read st i (k_recv k i)" by (simp add: st1_def)
    then show ?thesis by (simp only: handle_client_read_no_accept)
  next
    case False
    then have "st1 = st" by (simp add: st1_def)
    then show ?thesis by simp
  qed
  then obtain evs1 where 1: "trace st1 = trace st @ evs1" "accept_calls evs1 = 0" by blast
  show ?thesis
  proof (cases "0 \<le> fd (clients st1 ! i) \<and> fd (clients st ! i) \<in> ws")
    case True
    with False assms have h: "handle_client_write st1 i (k_send k i) = Some st'"
      unfolding st1_def by (simp add: serve_client_def Let_def)
    from handle_client_write_no_accept [OF h] obtain evs2 where
      "trace st' = trace st1 @ evs2" "accept_calls evs2 = 0" by blast
    with 1 show ?thesis by (intro exI [of _ "evs1 @ evs2"]) (simp add: accept_calls_append)
  next
    case no: False
    with False assms have "Some st1 = Some st'"
      unfolding st1_def by (simp add: serve_client_def Let_def)
    then have "st' = st1" by simp
    with 1 show ?thesis by (intro exI [of _ evs1]) simp
  qed
qed

lemma serve_clients_no_accept:
  "serve_clients st rs ws k js = Some st' \<Longrightarrow>
     \<exists>evs. trace st' = trace st @ evs \<and> accept_calls evs = 0"
proof (induction js arbitrary: st)
  case Nil
  then show ?case by simp
next
  case (Cons i js)
  from Cons.prems obtain st1 where
    1: "serve_client st rs ws k i = Some st1" and 2: "serve_clients st1 rs ws k js = Some st'"
    by (auto split: option.splits)
  from serve_client_no_accept [OF 1] obtain evs1 where
    a: "trace st1 = trace st @ evs1" "accept_calls evs1 = 0" by blast
  from Cons.IH [OF 2] obtain evs2 where
    b: "trace st' = trace st1 @ evs2" "accept_calls evs2 = 0" by blast
  from a b show ?case by (intro exI [of _ "evs1 @ evs2"]) (simp add: accept_calls_append)
qed

lemma handle_new_connection_accepts_once:
  "\<exists>evs. trace (handle_new_connection s st a nb_ok) = trace st @ evs \<and> accept_calls evs = 1"
proof (cases a)
  case (AcceptErr e)
  then show ?thesis by (simp add: handle_new_connection_error)
next
  case (AcceptOk n)
  show ?thesis
  proof (cases nb_ok)
    case False
    with AcceptOk show ?thesis by (simp add: handle_new_connection_abandoned)
  next
    case True
    with AcceptOk show ?thesis
      by (cases "find_free_slot (clients st)")
        (simp_all add: handle_new_connection_rejected handle_new_connection_installed)
  qed
qed

lemma loop_body_accepts_once:
  assumes "loop_body s st k = Some (res, st')"
  shows "accept_calls (new_events st st') \<le> 1"
proof (cases "select_sys (max_fd st + 1) (master_read_set st) (master_write_set st) (k_select k)")
  case (Inl e)
  with assms have "st' = st\<lparr>trace := trace st @ [Select (max_fd st + 1) (k_select k)]\<rparr>
      \<or> st' = st\<lparr>trace := trace st @ [Select (max_fd st + 1) (k_select k), Log ''select'']\<rparr>"
    by (cases "e = EINTR") (simp_all add: loop_body_def Let_def)
  then show ?thesis
    by (elim disjE) (simp_all add: new_events_def)
next
  case (Inr sets)
  obtain rs ws where sets: "sets = (rs, ws)" by (cases sets)
  define st0 where "st0 = st\<lparr>trace := trace st @ [Select (max_fd st + 1) (k_select k)]\<rparr>"
  define st1 where "st1 = (if s \<in> rs
    then handle_new_connection s st0 (k_accept k) (k_nonblock k) else st0)"
  have "\<exists>evs. trace st1 = trace st0 @ evs \<and> accept_calls evs \<le> 1"
  proof (cases "s \<in> rs")
    case False
    then have "st1 = st0" by (simp add: st1_def)
    then show ?thesis by simp
  next
    case True
    then have eq: "st1 = handle_new_connection s st0 (k_accept k) (k_nonblock k)"
      by (simp add: st1_def)
    from handle_new_connection_accepts_once [of s st0 "k_accept k" "k_nonblock k"]
    obtain evs where "trace st1 = trace st0 @ evs" "accept_calls evs = 1"
      unfolding eq by blast
    then show ?thesis by (intro exI [of _ evs]) simp
  qed
  then obtain evs1 where 1: "trace st1 = trace st0 @ evs1" "accept_calls evs1 \<le> 1" by blast
  from assms Inr sets have "serve_clients st1 rs ws k [0..<length (clients st1)] = Some st'"
    unfolding st1_def st0_def by (auto simp: loop_body_def Let_def split: option.splits)
  from serve_clients_no_accept [OF this] obtain evs2 where
    2: "trace st' = trace st1 @ evs2" "accept_calls evs2 = 0" by blast
  from 1 2 have "trace st' = trace st @ ([Select (max_fd st + 1) (k_select k)] @ evs1 @ evs2)"
    by (simp add: st0_def)
  from new_events_append [OF this] 1 2 show ?thesis
    by (simp add: accept_calls_append)
qed

lemma handle_new_connection_paths:
  assumes "st' = handle_new_connection server_fd st a nb_ok"
  shows "accept_calls (new_events st st') = 1
     \<and> (\<forall>e. a = AcceptErr e \<longrightarrow> same_state st st')
     \<and> (\<forall>n. a = AcceptOk n \<and> \<not> nb_ok \<longrightarrow>
           same_state st st'
           \<and> SetNonblocking (int n) False \<in> set (new_events st st')
           \<and> Close (int n) \<in> set (new_events st st'))
     \<and> (\<forall>n. a = AcceptOk n \<and> nb_ok \<longrightarrow>
           SetNonblocking (int n) True \<in> set (new_events st st')
           \<and> max_fd st' = max (max_fd st) (int n)
           \<and> master_write_set st' = master_write_set st
           \<and> (\<forall>i<length (clients st).
                 fd (clients st ! i) < 0 \<and> (\<forall>j<i. 0 \<le> fd (clients st ! j)) \<longrightarrow>
                   clients st' = (clients st)[i :=
                     \<lparr>fd = int n,
                      write_buf = (write_buf (clients st ! i))\<lparr>size_wb := 0, offset := 0\<rparr>\<rparr>]
                   \<and> master_read_set st' = insert (int n) (master_read_set st)
                   \<and> Close (int n) \<notin> set (new_events st st'))
           \<and> ((\<forall>j<length (clients st). 0 \<le> fd (clients st ! j)) \<longrightarrow>
                 clients st' = clients st
                 \<and> master_read_set st' = master_read_set st - {int n}
                 \<and> Close (int n) \<in> set (new_events st st')
                 \<and> Log ''Too many clients, rejecting connection'' \<in> set (new_events st st')))"
proof (cases a)
  case (AcceptErr e)
  with assms show ?thesis
    by (simp add: handle_new_connection_error new_events_def same_state_def)
next
  case (AcceptOk n)
  show ?thesis
  proof (cases nb_ok)
    case False
    with AcceptOk assms show ?thesis
      by (simp add: handle_new_connection_abandoned new_events_def same_state_def)
  next
    case True
    show ?thesis
    proof (cases "find_free_slot (clients st)")
      case None
      then have full: "\<forall>j<length (clients st). 0 \<le> fd (clients st ! j)"
        by (simp add: find_free_slot_None)
      then have none: "\<not> fd (clients st ! i) < 0" if "i < length (clients st)" for i
        using that by (simp add: not_less)
      from assms AcceptOk True None show ?thesis
        by (auto simp: handle_new_connection_rejected new_events_def dest: none)
    next
      case (Some k)
      note k = find_free_slot_Some [OF Some]
      have uniq: "i = k" if "i < length (clients st)" "fd (clients st ! i) < 0"
        "\<forall>j<i. 0 \<le> fd (clients st ! j)" for i
        using find_free_slot_least [OF that] Some by simp
      from k have "\<not> (\<forall>j<length (clients st). 0 \<le> fd (clients st ! j))"
        by (auto simp: not_le)
      with assms AcceptOk True Some uniq show ?thesis
        by (auto simp: handle_new_connection_installed new_events_def)
    qed
  qed
qed

text \<open>
  C6. The acceptor calls \<^verbatim>\<open>accept\<close> once, and an iteration of the loop calls it at most
  once. When \<^verbatim>\<open>accept\<close> fails, nothing changes. On success the acceptor sets the new
  descriptor non-blocking. When that fails, the descriptor is closed and nothing else
  changes. Otherwise the descriptor is non-blocking,
  \<^verbatim>\<open>max_fd\<close> becomes the maximum of itself and the new descriptor; where a slot
  is free, the free slot of lowest index takes the descriptor with a buffer of
  \<open>size = 0\<close>, \<open>offset = 0\<close> and read-interest is registered; where every slot is
  occupied, the descriptor is closed, its read-interest is cleared, the rejection is
  logged and the table is unchanged. A slot is free when its \<^verbatim>\<open>fd\<close> is negative, and -1
  is the only negative value that the program stores (\<open>slot_inv\<close>). The buffer is reset
  by \<^verbatim>\<open>init_write_buffer\<close>, which leaves the bytes of \<^verbatim>\<open>data\<close> as they are; no operation
  reads them (\<open>pending\<close> is empty).
\<close>

theorem handle_new_connection_cases:
  assumes "st' = handle_new_connection server_fd st a nb_ok"
  shows "accept_calls (new_events st st') = 1
     \<and> (\<forall>e. a = AcceptErr e \<longrightarrow> same_state st st')
     \<and> (\<forall>n. a = AcceptOk n \<and> \<not> nb_ok \<longrightarrow>
           same_state st st'
           \<and> SetNonblocking (int n) False \<in> set (new_events st st')
           \<and> Close (int n) \<in> set (new_events st st'))
     \<and> (\<forall>n. a = AcceptOk n \<and> nb_ok \<longrightarrow>
           SetNonblocking (int n) True \<in> set (new_events st st')
           \<and> max_fd st' = max (max_fd st) (int n)
           \<and> master_write_set st' = master_write_set st
           \<and> (\<forall>i<length (clients st).
                 fd (clients st ! i) < 0 \<and> (\<forall>j<i. 0 \<le> fd (clients st ! j)) \<longrightarrow>
                   clients st' = (clients st)[i :=
                     \<lparr>fd = int n,
                      write_buf = (write_buf (clients st ! i))\<lparr>size_wb := 0, offset := 0\<rparr>\<rparr>]
                   \<and> master_read_set st' = insert (int n) (master_read_set st)
                   \<and> Close (int n) \<notin> set (new_events st st'))
           \<and> ((\<forall>j<length (clients st). 0 \<le> fd (clients st ! j)) \<longrightarrow>
                 clients st' = clients st
                 \<and> master_read_set st' = master_read_set st - {int n}
                 \<and> Close (int n) \<in> set (new_events st st')
                 \<and> Log ''Too many clients, rejecting connection'' \<in> set (new_events st st')))
     \<and> (\<forall>k res st2. loop_body server_fd st k = Some (res, st2)
           \<longrightarrow> accept_calls (new_events st st2) \<le> 1)"
  using handle_new_connection_paths [OF assms] loop_body_accepts_once [of server_fd st]
  by blast

theorem handle_new_connection_witness:
  "(1::nat) < length (clients example_server) \<and> fd (clients example_server ! 1) < 0
   \<and> 0 \<le> fd (clients example_server ! 0)
   \<and> clients (handle_new_connection 3 example_server (AcceptOk 5) True) =
        (clients example_server)[1 := \<lparr>fd = 5, write_buf = example_buffer\<rparr>]
   \<and> master_read_set (handle_new_connection 3 example_server (AcceptOk 5) True) = {3, 4, 5}
   \<and> max_fd (handle_new_connection 3 example_server (AcceptOk 5) True) = 5
   \<and> SetNonblocking 5 True \<in> set (new_events example_server
         (handle_new_connection 3 example_server (AcceptOk 5) True))
   \<and> length (clients (example_server\<lparr>clients := take 1 (clients example_server)\<rparr>)) = 1
   \<and> 0 \<le> fd (clients (example_server\<lparr>clients := take 1 (clients example_server)\<rparr>) ! 0)
   \<and> clients (handle_new_connection 3
         (example_server\<lparr>clients := take 1 (clients example_server)\<rparr>) (AcceptOk 5) True)
        = take 1 (clients example_server)
   \<and> 5 \<notin> master_read_set (handle_new_connection 3
         (example_server\<lparr>clients := take 1 (clients example_server)\<rparr>) (AcceptOk 5) True)
   \<and> max_fd (handle_new_connection 3
         (example_server\<lparr>clients := take 1 (clients example_server)\<rparr>) (AcceptOk 5) True) = 5"
proof -
  have a: "(1::nat) < length (clients example_server)" "fd (clients example_server ! 1) < 0"
    "\<forall>j<1. 0 \<le> fd (clients example_server ! j)"
    by (simp_all add: example_server_def)
  have b: "\<forall>j<length (clients (example_server\<lparr>clients := take 1 (clients example_server)\<rparr>)).
         0 \<le> fd (clients (example_server\<lparr>clients := take 1 (clients example_server)\<rparr>) ! j)"
    by (simp add: example_server_def)
  from handle_new_connection_cases [where server_fd = 3 and st = example_server
      and a = "AcceptOk 5" and nb_ok = True, OF refl] a
  have c: "clients (handle_new_connection 3 example_server (AcceptOk 5) True) =
        (clients example_server)[1 := \<lparr>fd = 5, write_buf = example_buffer\<rparr>]
   \<and> master_read_set (handle_new_connection 3 example_server (AcceptOk 5) True) = {3, 4, 5}
   \<and> max_fd (handle_new_connection 3 example_server (AcceptOk 5) True) = 5
   \<and> SetNonblocking 5 True \<in> set (new_events example_server
         (handle_new_connection 3 example_server (AcceptOk 5) True))"
    by (auto simp: example_server_def example_buffer_def)
  from handle_new_connection_cases [where server_fd = 3
      and st = "example_server\<lparr>clients := take 1 (clients example_server)\<rparr>"
      and a = "AcceptOk 5" and nb_ok = True, OF refl] b
  have d: "clients (handle_new_connection 3
         (example_server\<lparr>clients := take 1 (clients example_server)\<rparr>) (AcceptOk 5) True)
        = take 1 (clients example_server)
   \<and> 5 \<notin> master_read_set (handle_new_connection 3
         (example_server\<lparr>clients := take 1 (clients example_server)\<rparr>) (AcceptOk 5) True)
   \<and> max_fd (handle_new_connection 3
         (example_server\<lparr>clients := take 1 (clients example_server)\<rparr>) (AcceptOk 5) True) = 5"
    by (auto simp: example_server_def)
  have e: "0 \<le> fd (clients example_server ! 0)"
    "length (clients (example_server\<lparr>clients := take 1 (clients example_server)\<rparr>)) = 1"
    "0 \<le> fd (clients (example_server\<lparr>clients := take 1 (clients example_server)\<rparr>) ! 0)"
    by (simp_all add: example_server_def)
  from a c d e show ?thesis by blast
qed

subsection \<open>The server invariant\<close>

lemma slot_inv_trace [simp]: "slot_inv s (st\<lparr>trace := t\<rparr>) i = slot_inv s st i"
  by (simp add: slot_inv_def)

lemma server_inv_trace [simp]: "server_inv s (st\<lparr>trace := t\<rparr>) = server_inv s st"
  by (simp add: server_inv_def)

lemma server_inv_slot: "server_inv s st \<Longrightarrow> i < length (clients st) \<Longrightarrow> slot_inv s st i"
  by (simp add: server_inv_def)

lemma server_inv_update_buffer:
  assumes inv: "server_inv s st" and i: "i < length (clients st)"
    and f: "0 \<le> fd (clients st ! i)" and wf: "buffer_wf buf'"
    and W: "W - {fd (clients st ! i)} = master_write_set st - {fd (clients st ! i)}"
    and ne: "fd (clients st ! i) \<in> W \<longrightarrow> \<not> write_buffer_empty buf'"
    and dr: "write_buffer_empty buf' \<longrightarrow> size_wb buf' = 0"
  shows "server_inv s (st\<lparr>clients := (clients st)[i := (clients st ! i)\<lparr>write_buf := buf'\<rparr>],
                          master_write_set := W\<rparr>)"
proof -
  let ?cs = "(clients st)[i := (clients st ! i)\<lparr>write_buf := buf'\<rparr>]"
  let ?st = "st\<lparr>clients := ?cs, master_write_set := W\<rparr>"
  have len: "length ?cs = length (clients st)" by simp
  have fds: "fd (?cs ! k) = fd (clients st ! k)" if "k < length (clients st)" for k
    using that by (cases "k = i") simp_all
  have bufs: "write_buf (?cs ! k) = (if k = i then buf' else write_buf (clients st ! k))"
    if "k < length (clients st)" for k
    using that by (cases "k = i") simp_all
  have Wmem: "x \<in> W \<longleftrightarrow> x \<in> master_write_set st" if "x \<noteq> fd (clients st ! i)" for x
    using W that by blast
  have slot: "slot_inv s ?st k" if k: "k < length (clients st)" for k
  proof -
    from inv k have old: "slot_inv s st k" by (rule server_inv_slot)
    show ?thesis
    proof (cases "k = i")
      case True
      with old wf ne dr i show ?thesis
        unfolding slot_inv_def by (simp add: fds)
    next
      case False
      from inv i have oldi: "slot_inv s st i" by (rule server_inv_slot)
      have "fd (clients st ! k) \<noteq> fd (clients st ! i)"
        using oldi f k False unfolding slot_inv_def by blast
      with old False k i show ?thesis
        unfolding slot_inv_def by (simp add: fds Wmem)
    qed
  qed
  have wset: "0 \<le> x \<and> (\<exists>k<length (clients st). fd (?cs ! k) = x)" if "x \<in> W" for x
  proof (cases "x = fd (clients st ! i)")
    case True
    with i f show ?thesis by (auto simp: fds)
  next
    case False
    with that have "x \<in> master_write_set st" by (simp add: Wmem)
    with inv obtain k where "0 \<le> x" "k < length (clients st)" "fd (clients st ! k) = x"
      unfolding server_inv_def by blast
    then show ?thesis by (auto simp: fds)
  qed
  have rset: "x = s \<or> (\<exists>k<length (clients st). fd (?cs ! k) = x)" if "x \<in> master_read_set st" for x
  proof -
    from inv that have "x = s \<or> (\<exists>k<length (clients st). fd (clients st ! k) = x)"
      unfolding server_inv_def by blast
    then show ?thesis by (auto simp: fds)
  qed
  from inv have "0 \<le> s" "s \<le> max_fd st" "s \<in> master_read_set st"
    unfolding server_inv_def by simp_all
  with slot wset rset show ?thesis
    unfolding server_inv_def by (simp add: len)
qed


lemma server_inv_read_set_nonneg:
  assumes "server_inv s st" and "x \<in> master_read_set st"
  shows "0 \<le> x"
proof -
  from assms consider "x = s" | k where "k < length (clients st)" "fd (clients st ! k) = x"
    unfolding server_inv_def by blast
  then show ?thesis
  proof cases
    case 1
    with assms(1) show ?thesis by (simp add: server_inv_def)
  next
    case 2
    from server_inv_slot [OF assms(1) 2(1)] 2(2) assms(2) show ?thesis
      unfolding slot_inv_def by simp
  qed
qed

lemma server_inv_write_set_nonneg: "server_inv s st \<Longrightarrow> x \<in> master_write_set st \<Longrightarrow> 0 \<le> x"
  unfolding server_inv_def by blast

lemma server_inv_close:
  assumes inv: "server_inv s st" and i: "i < length (clients st)"
  shows "server_inv s (close_client st i)"
proof (cases "0 \<le> fd (clients st ! i)")
  case False
  with inv show ?thesis by (simp add: close_client_empty_slot)
next
  case True
  define f where "f = fd (clients st ! i)"
  define b where "b = (write_buf (clients st ! i))\<lparr>size_wb := 0, offset := 0\<rparr>"
  let ?cs = "(clients st)[i := \<lparr>fd = -1, write_buf = b\<rparr>]"
  let ?st = "st\<lparr>clients := ?cs, master_read_set := master_read_set st - {f},
                 master_write_set := master_write_set st - {f}\<rparr>"
  from inv have s: "0 \<le> s" "s \<le> max_fd st" "s \<in> master_read_set st"
    unfolding server_inv_def by simp_all
  from inv i have oldi: "slot_inv s st i" by (rule server_inv_slot)
  from oldi have fs: "f \<noteq> s" unfolding slot_inv_def f_def by simp
  from oldi have wfb: "buffer_wf b" unfolding slot_inv_def b_def buffer_wf_def by simp
  have sb: "size_wb b = 0" by (simp add: b_def)
  have other: "fd (clients st ! k) \<noteq> f" if "k < length (clients st)" "k \<noteq> i" for k
    using oldi True that unfolding slot_inv_def f_def by blast
  have m1r: "-1 \<notin> master_read_set st"
    using server_inv_read_set_nonneg [OF inv, of "-1"] by auto
  have m1w: "-1 \<notin> master_write_set st"
    using server_inv_write_set_nonneg [OF inv, of "-1"] by auto
  have slot: "slot_inv s ?st k" if k: "k < length (clients st)" for k
  proof (cases "k = i")
    case True
    with i wfb sb s m1r m1w show ?thesis
      unfolding slot_inv_def by (simp add: write_buffer_empty_def)
  next
    case False
    from inv k have old: "slot_inv s st k" by (rule server_inv_slot)
    from other [OF k False] old False k i show ?thesis
      unfolding slot_inv_def by (auto simp: nth_list_update split: if_splits)
  qed
  have rset: "x = s \<or> (\<exists>k<length (clients st). fd (?cs ! k) = x)"
    if "x \<in> master_read_set st - {f}" for x
  proof -
    from inv that consider "x = s" | k where "k < length (clients st)" "fd (clients st ! k) = x"
      unfolding server_inv_def by blast
    then show ?thesis
    proof cases
      case 1
      then show ?thesis by simp
    next
      case 2
      with that have "k \<noteq> i" unfolding f_def by auto
      with 2 show ?thesis by auto
    qed
  qed
  have wset: "0 \<le> x \<and> (\<exists>k<length (clients st). fd (?cs ! k) = x)"
    if "x \<in> master_write_set st - {f}" for x
  proof -
    from inv that obtain k where "0 \<le> x" "k < length (clients st)" "fd (clients st ! k) = x"
      unfolding server_inv_def by blast
    moreover with that have "k \<noteq> i" unfolding f_def by auto
    ultimately show ?thesis by auto
  qed
  from s fs slot rset wset have "server_inv s ?st"
    unfolding server_inv_def by simp
  then show ?thesis
    unfolding close_client_occupied [OF True] f_def b_def by simp
qed

lemma server_inv_cong:
  assumes "clients st' = clients st" and "master_read_set st' = master_read_set st"
    and "master_write_set st' = master_write_set st" and "max_fd st' = max_fd st"
  shows "server_inv s st' = server_inv s st"
  using assms by (simp add: server_inv_def slot_inv_def)

lemma write_buffer_flush_wf:
  assumes "write_buffer_flush buf f script = Some (res, buf', evs)" and "buffer_wf buf"
  shows "buffer_wf buf' \<and> (res \<noteq> 0 \<longrightarrow> \<not> write_buffer_empty buf')"
proof -
  from write_buffer_flush_post [OF assms]
  have d: "data buf' = data buf"
    and c: "res = 0 \<and> size_wb buf' = 0 \<and> offset buf' = 0
      \<or> res \<noteq> 0 \<and> flush_stopped buf f buf' evs"
    by auto
  from c show ?thesis
  proof
    assume "res = 0 \<and> size_wb buf' = 0 \<and> offset buf' = 0"
    with d assms(2) show ?thesis by (simp add: buffer_wf_def)
  next
    assume "res \<noteq> 0 \<and> flush_stopped buf f buf' evs"
    with d assms(2) show ?thesis
      by (simp add: buffer_wf_def flush_stopped_def write_buffer_empty_def)
  qed
qed

lemma server_inv_read:
  assumes inv: "server_inv s st" and i: "i < length (clients st)"
    and f: "0 \<le> fd (clients st ! i)"
  shows "server_inv s (handle_client_read st i r)"
proof -
  have closed: "server_inv s (close_client (st\<lparr>trace := t\<rparr>) i)" for t
    using inv i by (simp add: server_inv_close)
  show ?thesis
  proof (cases "recv_sys r")
    case (RecvErr e)
    with inv closed show ?thesis
      by (simp add: handle_client_read_def Let_def)
  next
    case (RecvOk bs)
    show ?thesis
    proof (cases "bs = []")
      case True
      with RecvOk closed show ?thesis
        by (simp add: handle_client_read_def Let_def)
    next
      case False
      show ?thesis
      proof (cases "write_buffer_append (write_buf (clients st ! i)) bs")
        case (Inl err)
        with False RecvOk closed show ?thesis
          by (simp add: handle_client_read_def Let_def)
      next
        case (Inr buf')
        from server_inv_slot [OF inv i] have "buffer_wf (write_buf (clients st ! i))"
          by (simp add: slot_inv_def)
        from write_buffer_append_post [OF this Inr] False
        have wf: "buffer_wf buf'" and ne: "\<not> write_buffer_empty buf'" by simp_all
        have "server_inv s (st\<lparr>clients := (clients st)[i := (clients st ! i)\<lparr>write_buf := buf'\<rparr>],
            master_write_set := insert (fd (clients st ! i)) (master_write_set st)\<rparr>)"
          using inv i f wf _ _ _
        proof (rule server_inv_update_buffer)
          show "insert (fd (clients st ! i)) (master_write_set st) - {fd (clients st ! i)}
             = master_write_set st - {fd (clients st ! i)}" by blast
          show "fd (clients st ! i) \<in> insert (fd (clients st ! i)) (master_write_set st)
             \<longrightarrow> \<not> write_buffer_empty buf'" using ne by simp
          show "write_buffer_empty buf' \<longrightarrow> size_wb buf' = 0" using ne by simp
        qed
        moreover have "server_inv s (handle_client_read st i r) =
          server_inv s (st\<lparr>clients := (clients st)[i := (clients st ! i)\<lparr>write_buf := buf'\<rparr>],
            master_write_set := insert (fd (clients st ! i)) (master_write_set st)\<rparr>)"
          using False RecvOk Inr
          by (intro server_inv_cong) (simp_all add: handle_client_read_def Let_def)
        ultimately show ?thesis by simp
      qed
    qed
  qed
qed

lemma server_inv_write:
  assumes inv: "server_inv s st" and i: "i < length (clients st)"
    and f: "0 \<le> fd (clients st ! i)"
    and h: "handle_client_write st i script = Some st'"
  shows "server_inv s st'"
proof -
  from h obtain res buf' evs where
    fl: "write_buffer_flush (write_buf (clients st ! i)) (fd (clients st ! i)) script
           = Some (res, buf', evs)"
    by (auto simp: handle_client_write_def Let_def split: option.splits)
  from server_inv_slot [OF inv i] have wf0: "buffer_wf (write_buf (clients st ! i))"
    by (simp add: slot_inv_def)
  from write_buffer_flush_wf [OF fl wf0]
  have wf: "buffer_wf buf'" and ne: "res \<noteq> 0 \<longrightarrow> \<not> write_buffer_empty buf'" by simp_all
  from write_buffer_flush_post [OF fl wf0]
  have z: "res = 0 \<longrightarrow> size_wb buf' = 0" by auto
  from ne z have dr: "write_buffer_empty buf' \<longrightarrow> size_wb buf' = 0" by blast
  let ?cs = "(clients st)[i := (clients st ! i)\<lparr>write_buf := buf'\<rparr>]"
  have upd: "server_inv s (st\<lparr>clients := ?cs, master_write_set := W\<rparr>)"
    if "W - {fd (clients st ! i)} = master_write_set st - {fd (clients st ! i)}"
      "fd (clients st ! i) \<in> W \<longrightarrow> \<not> write_buffer_empty buf'" for W
    using inv i f wf that dr by (rule server_inv_update_buffer)
  from write_buffer_flush_post [OF fl wf0]
  consider "res = 0" | "res = 1" | "res = -1" by auto
  then show ?thesis
  proof cases
    case 1
    have "server_inv s (st\<lparr>clients := ?cs,
        master_write_set := master_write_set st - {fd (clients st ! i)}\<rparr>)"
      by (rule upd) auto
    moreover have "server_inv s st' = server_inv s (st\<lparr>clients := ?cs,
        master_write_set := master_write_set st - {fd (clients st ! i)}\<rparr>)"
      using h fl 1 by (intro server_inv_cong) (auto simp: handle_client_write_done)
    ultimately show ?thesis by simp
  next
    case 2
    with ne have "server_inv s (st\<lparr>clients := ?cs, master_write_set := master_write_set st\<rparr>)"
      by (intro upd) auto
    moreover have "server_inv s st' =
        server_inv s (st\<lparr>clients := ?cs, master_write_set := master_write_set st\<rparr>)"
      using h fl 2 by (intro server_inv_cong) (auto simp: handle_client_write_partial)
    ultimately show ?thesis by simp
  next
    case 3
    with ne have "server_inv s (st\<lparr>clients := ?cs, master_write_set := master_write_set st\<rparr>)"
      by (intro upd) auto
    then have "server_inv s (st\<lparr>clients := ?cs, trace := trace st @ evs\<rparr>)"
      by simp
    then have "server_inv s (close_client (st\<lparr>clients := ?cs, trace := trace st @ evs\<rparr>) i)"
      using i by (intro server_inv_close) simp_all
    moreover from h fl 3
    have "st' = close_client (st\<lparr>clients := ?cs, trace := trace st @ evs\<rparr>) i"
      by (simp add: handle_client_write_def Let_def)
    ultimately show ?thesis by simp
  qed
qed

lemma accept_fresh_slots:
  "accept_fresh s st (AcceptOk n) \<Longrightarrow> k < length (clients st) \<Longrightarrow> fd (clients st ! k) \<noteq> int n"
  by (auto simp: accept_fresh_def)

lemma server_inv_accept:
  assumes inv: "server_inv s st" and fresh: "accept_fresh s st a"
  shows "server_inv s (handle_new_connection s st a nb_ok)"
proof (cases a)
  case (AcceptErr e)
  with inv show ?thesis by (simp add: handle_new_connection_error)
next
  case (AcceptOk n)
  from inv have s: "0 \<le> s" "s \<le> max_fd st" "s \<in> master_read_set st"
    unfolding server_inv_def by simp_all
  from fresh AcceptOk have ns: "int n \<noteq> s" by (simp add: accept_fresh_def)
  have nk: "fd (clients st ! k) \<noteq> int n" if "k < length (clients st)" for k
    using fresh that unfolding AcceptOk by (rule accept_fresh_slots)
  have nw: "int n \<notin> master_write_set st"
  proof
    assume "int n \<in> master_write_set st"
    with inv obtain k where "k < length (clients st)" "fd (clients st ! k) = int n"
      unfolding server_inv_def by blast
    with nk show False by blast
  qed
  show ?thesis
  proof (cases nb_ok)
    case False
    with AcceptOk inv show ?thesis by (simp add: handle_new_connection_abandoned)
  next
    case True
    show ?thesis
    proof (cases "find_free_slot (clients st)")
      case None
      let ?st = "st\<lparr>master_read_set := master_read_set st - {int n},
                     max_fd := max (max_fd st) (int n)\<rparr>"
      have slot: "slot_inv s ?st k" if k: "k < length (clients st)" for k
        using server_inv_slot [OF inv k] nk [OF k] unfolding slot_inv_def by auto
      have "x = s \<or> (\<exists>k<length (clients st). fd (clients st ! k) = x)"
        if "x \<in> master_read_set st" for x
        using inv that unfolding server_inv_def by blast
      moreover have "0 \<le> x \<and> (\<exists>k<length (clients st). fd (clients st ! k) = x)"
        if "x \<in> master_write_set st" for x
        using inv that unfolding server_inv_def by blast
      ultimately have "server_inv s ?st"
        using s ns slot unfolding server_inv_def by auto
      moreover have "server_inv s (handle_new_connection s st a nb_ok) = server_inv s ?st"
        using AcceptOk True None
        by (intro server_inv_cong) (simp_all add: handle_new_connection_rejected)
      ultimately show ?thesis by simp
    next
      case (Some i)
      from find_free_slot_Some [OF Some]
      have i: "i < length (clients st)" and free: "fd (clients st ! i) < 0" by simp_all
      define b where "b = (write_buf (clients st ! i))\<lparr>size_wb := 0, offset := 0\<rparr>"
      let ?cs = "(clients st)[i := \<lparr>fd = int n, write_buf = b\<rparr>]"
      let ?st = "st\<lparr>clients := ?cs, master_read_set := insert (int n) (master_read_set st),
                     max_fd := max (max_fd st) (int n)\<rparr>"
      from server_inv_slot [OF inv i] have wfb: "buffer_wf b"
        unfolding slot_inv_def b_def buffer_wf_def by simp
      have sb: "size_wb b = 0" by (simp add: b_def)
      have slot: "slot_inv s ?st k" if k: "k < length (clients st)" for k
      proof (cases "k = i")
        case True
        with i wfb sb ns nw nk show ?thesis
          unfolding slot_inv_def by (auto simp: nth_list_update split: if_splits)
      next
        case False
        with server_inv_slot [OF inv k] nk [OF k] k i show ?thesis
          unfolding slot_inv_def by (auto simp: nth_list_update split: if_splits)
      qed
      have rset: "x = s \<or> (\<exists>k<length (clients st). fd (?cs ! k) = x)"
        if "x \<in> insert (int n) (master_read_set st)" for x
      proof (cases "x = int n")
        case True
        with i show ?thesis by auto
      next
        case False
        with that have xr: "x \<in> master_read_set st" by simp
        with inv consider "x = s" | k where "k < length (clients st)" "fd (clients st ! k) = x"
          unfolding server_inv_def by blast
        then show ?thesis
        proof cases
          case 1
          then show ?thesis by simp
        next
          case 2
          from server_inv_read_set_nonneg [OF inv xr] 2(2) free have "k \<noteq> i" by auto
          with 2 show ?thesis by auto
        qed
      qed
      have wset: "0 \<le> x \<and> (\<exists>k<length (clients st). fd (?cs ! k) = x)"
        if "x \<in> master_write_set st" for x
      proof -
        from inv that obtain k where x: "0 \<le> x" and k: "k < length (clients st)"
          "fd (clients st ! k) = x"
          unfolding server_inv_def by blast
        with free have "k \<noteq> i" by auto
        with x k show ?thesis by auto
      qed
      from s slot rset wset have "server_inv s ?st"
        unfolding server_inv_def by simp
      moreover have "server_inv s (handle_new_connection s st a nb_ok) = server_inv s ?st"
        using AcceptOk True Some
        by (intro server_inv_cong) (simp_all add: handle_new_connection_installed b_def)
      ultimately show ?thesis by simp
    qed
  qed
qed

lemma server_inv_init:
  assumes "0 \<le> s" and "stack_memory mem"
  shows "server_inv s (init_server s mem)"
  using assms
  unfolding server_inv_def slot_inv_def init_server_def stack_memory_def
  by (simp add: buffer_wf_def init_write_buffer_def write_buffer_empty_def)

lemma close_client_length [simp]: "length (clients (close_client st i)) = length (clients st)"
  by (simp add: close_client_def Let_def)

lemma close_client_max_fd [simp]: "max_fd (close_client st i) = max_fd st"
  by (simp add: close_client_def Let_def)

lemma handle_client_read_length [simp]:
  "length (clients (handle_client_read st i r)) = length (clients st)"
  by (simp add: handle_client_read_def Let_def split: recv_result.splits sum.splits)

lemma handle_client_read_max_fd [simp]: "max_fd (handle_client_read st i r) = max_fd st"
  by (simp add: handle_client_read_def Let_def split: recv_result.splits sum.splits)

lemma handle_client_write_length:
  "handle_client_write st i script = Some st' \<Longrightarrow> length (clients st') = length (clients st)"
  by (auto simp: handle_client_write_def Let_def split: option.splits if_splits)

lemma handle_client_write_max_fd:
  "handle_client_write st i script = Some st' \<Longrightarrow> max_fd st' = max_fd st"
  by (auto simp: handle_client_write_def Let_def split: option.splits if_splits)

lemma handle_new_connection_length [simp]:
  "length (clients (handle_new_connection s st a nb_ok)) = length (clients st)"
  by (simp add: handle_new_connection_def Let_def split: accept_result.splits option.splits)

lemma handle_new_connection_max_fd:
  "max_fd st \<le> max_fd (handle_new_connection s st a nb_ok)"
  by (simp add: handle_new_connection_def Let_def split: accept_result.splits option.splits)

lemma serve_client_inv:
  assumes "server_inv s st" and "i < length (clients st)"
    and "serve_client st rs ws k i = Some st'"
  shows "server_inv s st' \<and> length (clients st') = length (clients st) \<and> max_fd st' = max_fd st"
proof (cases "fd (clients st ! i) < 0")
  case True
  with assms show ?thesis by (simp add: serve_client_def)
next
  case False
  then have f: "0 \<le> fd (clients st ! i)" by simp
  define st1 where "st1 = (if fd (clients st ! i) \<in> rs
    then handle_client_read st i (k_recv k i) else st)"
  have inv1: "server_inv s st1"
    unfolding st1_def using assms(1,2) f by (simp add: server_inv_read)
  have len1: "length (clients st1) = length (clients st)" and mx1: "max_fd st1 = max_fd st"
    unfolding st1_def by simp_all
  show ?thesis
  proof (cases "0 \<le> fd (clients st1 ! i) \<and> fd (clients st ! i) \<in> ws")
    case True
    with False assms(3) have h: "handle_client_write st1 i (k_send k i) = Some st'"
      unfolding st1_def by (simp add: serve_client_def Let_def)
    from True assms(2) len1 have "server_inv s st'"
      by (intro server_inv_write [OF inv1 _ _ h]) simp_all
    with handle_client_write_length [OF h] handle_client_write_max_fd [OF h] len1 mx1
    show ?thesis by simp
  next
    case no: False
    with False assms(3) have "st' = st1"
      unfolding st1_def by (auto simp: serve_client_def Let_def)
    with inv1 len1 mx1 show ?thesis by simp
  qed
qed

lemma serve_clients_inv:
  assumes "server_inv s st" and "\<forall>i \<in> set js. i < length (clients st)"
    and "serve_clients st rs ws k js = Some st'"
  shows "server_inv s st' \<and> length (clients st') = length (clients st) \<and> max_fd st' = max_fd st"
  using assms
proof (induction js arbitrary: st)
  case Nil
  then show ?case by simp
next
  case (Cons i js)
  from Cons.prems(3) obtain st1 where
    1: "serve_client st rs ws k i = Some st1" and 2: "serve_clients st1 rs ws k js = Some st'"
    by (auto split: option.splits)
  from Cons.prems(2) have i: "i < length (clients st)" by simp
  from serve_client_inv [OF Cons.prems(1) i 1]
  have inv1: "server_inv s st1" and len1: "length (clients st1) = length (clients st)"
    and mx1: "max_fd st1 = max_fd st" by simp_all
  from Cons.prems(2) len1 have "\<forall>i \<in> set js. i < length (clients st1)" by simp
  from Cons.IH [OF inv1 this 2] len1 mx1 show ?case by simp
qed

lemma loop_body_inv:
  assumes inv: "server_inv s st" and fresh: "accept_fresh s st (k_accept k)"
    and body: "loop_body s st k = Some (res, st')"
  shows "server_inv s st' \<and> length (clients st') = length (clients st) \<and> max_fd st \<le> max_fd st'"
proof (cases "select_sys (max_fd st + 1) (master_read_set st) (master_write_set st) (k_select k)")
  case (Inl e)
  with body inv show ?thesis
    by (auto simp: loop_body_def Let_def split: if_splits)
next
  case (Inr sets)
  obtain rs ws where sets: "sets = (rs, ws)" by (cases sets)
  define st0 where "st0 = st\<lparr>trace := trace st @ [Select (max_fd st + 1) (k_select k)]\<rparr>"
  define st1 where "st1 = (if s \<in> rs
    then handle_new_connection s st0 (k_accept k) (k_nonblock k) else st0)"
  have inv0: "server_inv s st0" unfolding st0_def using inv by simp
  have fresh0: "accept_fresh s st0 (k_accept k)"
    using fresh unfolding st0_def by (cases "k_accept k") (simp_all add: accept_fresh_def)
  have inv1: "server_inv s st1"
    unfolding st1_def using inv0 fresh0 by (simp add: server_inv_accept)
  have len1: "length (clients st1) = length (clients st)"
    unfolding st1_def st0_def by simp
  have mx1: "max_fd st \<le> max_fd st1"
    unfolding st1_def using handle_new_connection_max_fd [of st0 s "k_accept k" "k_nonblock k"]
    by (simp add: st0_def)
  from body Inr sets have run: "serve_clients st1 rs ws k [0..<length (clients st1)] = Some st'"
    unfolding st1_def st0_def by (auto simp: loop_body_def Let_def split: option.splits)
  have "\<forall>i \<in> set [0..<length (clients st1)]. i < length (clients st1)" by simp
  from serve_clients_inv [OF inv1 this run] len1 mx1 show ?thesis by simp
qed

subsection \<open>Runs\<close>

lemma server_step_inv:
  assumes "server_inv s st" and "server_step s st op = Some st'"
  shows "server_inv s st' \<and> max_fd st \<le> max_fd st'"
proof (cases op)
  case (OpAccept a nb_ok)
  with assms show ?thesis
    by (auto simp: server_step_def server_inv_accept handle_new_connection_max_fd
        split: if_splits)
next
  case (OpRead i r)
  with assms show ?thesis
    by (auto simp: server_step_def server_inv_read split: if_splits)
next
  case (OpWrite i script)
  with assms have "i < length (clients st)" "0 \<le> fd (clients st ! i)"
    "handle_client_write st i script = Some st'"
    by (auto simp: server_step_def split: if_splits)
  with assms(1) show ?thesis
    by (simp add: server_inv_write [of s st i script st'] handle_client_write_max_fd)
next
  case (OpClose i)
  with assms show ?thesis
    by (auto simp: server_step_def server_inv_close split: if_splits)
next
  case (OpIteration k)
  with assms obtain res where "accept_fresh s st (k_accept k)"
    "loop_body s st k = Some (res, st')"
    by (auto simp: server_step_def split: if_splits)
  from loop_body_inv [OF assms(1) this] show ?thesis by simp
qed

lemma server_run_inv:
  "server_inv s st \<Longrightarrow> server_run s st ops = Some st' \<Longrightarrow>
     server_inv s st' \<and> max_fd st \<le> max_fd st'"
proof (induction ops arbitrary: st)
  case Nil
  then show ?case by simp
next
  case (Cons op ops)
  from Cons.prems(2) obtain st1 where
    1: "server_step s st op = Some st1" and 2: "server_run s st1 ops = Some st'"
    by (auto split: option.splits)
  from server_step_inv [OF Cons.prems(1) 1]
  have "server_inv s st1" and m: "max_fd st \<le> max_fd st1" by simp_all
  from Cons.IH [OF this(1) 2] m show ?case by simp
qed

text \<open>
  On every buffer that the server holds, a buffer with nothing staged has \<open>size = 0\<close>, so
  that the capacity test of \<^verbatim>\<open>write_buffer_append\<close> reads the size that the reset leaves.
\<close>

lemma write_buffer_append_in_server:
  assumes "0 \<le> server_fd" and "stack_memory mem"
    and "server_run server_fd (init_server server_fd mem) ops = Some st"
    and "i < length (clients st)"
  shows "(\<exists>buf'. write_buffer_append (write_buf (clients st ! i)) bs = Inr buf') \<longleftrightarrow>
     (if write_buffer_empty (write_buf (clients st ! i)) then 0
      else size_wb (write_buf (clients st ! i))) + length bs \<le> MAX_PENDING_WRITES"
proof -
  from assms(1,2) have "server_inv server_fd (init_server server_fd mem)"
    by (rule server_inv_init)
  from server_run_inv [OF this assms(3)] have "server_inv server_fd st" by simp
  from server_inv_slot [OF this assms(4)]
  have "write_buffer_empty (write_buf (clients st ! i))
      \<longrightarrow> size_wb (write_buf (clients st ! i)) = 0"
    by (simp add: slot_inv_def)
  then show ?thesis
    by (auto simp: write_buffer_append_accepts_iff)
qed

text \<open>
  C5. In every state that a run reaches from the initial state of the loop, and again
  after every further step (acceptor, read handler, write handler, close, or a whole
  iteration): a slot is occupied iff its descriptor is in the master read-set; and a slot
  whose descriptor is in the master write-set has a non-empty buffer. The second part is
  the first of the two alternatives "non-empty, or non-empty at the most recent return
  of the write handler", and it holds at all times: the write handler leaves a descriptor
  in the write-set only when the flush stopped before the end of the staged bytes.
\<close>

theorem master_sets_match_slots:
  assumes "0 \<le> server_fd" and "stack_memory mem"
    and "server_run server_fd (init_server server_fd mem) ops = Some st"
  shows "(\<forall>i<length (clients st).
            (0 \<le> fd (clients st ! i) \<longleftrightarrow> fd (clients st ! i) \<in> master_read_set st))
     \<and> (\<forall>i<length (clients st).
            fd (clients st ! i) \<in> master_write_set st
              \<longrightarrow> \<not> write_buffer_empty (write_buf (clients st ! i)))
     \<and> (\<forall>op st'. server_step server_fd st op = Some st' \<longrightarrow>
            (\<forall>i<length (clients st').
               (0 \<le> fd (clients st' ! i) \<longleftrightarrow> fd (clients st' ! i) \<in> master_read_set st')
               \<and> (fd (clients st' ! i) \<in> master_write_set st'
                    \<longrightarrow> \<not> write_buffer_empty (write_buf (clients st' ! i)))))"
proof -
  from assms(1,2) have "server_inv server_fd (init_server server_fd mem)"
    by (rule server_inv_init)
  from server_run_inv [OF this assms(3)] have inv: "server_inv server_fd st" by simp
  have *: "\<forall>i<length (clients t).
            (0 \<le> fd (clients t ! i) \<longleftrightarrow> fd (clients t ! i) \<in> master_read_set t)
            \<and> (fd (clients t ! i) \<in> master_write_set t
                  \<longrightarrow> \<not> write_buffer_empty (write_buf (clients t ! i)))"
    if "server_inv server_fd t" for t
    using that unfolding server_inv_def slot_inv_def by blast
  from * [OF inv] server_step_inv [OF inv] * show ?thesis by blast
qed

text \<open>
  C7. In every reachable state \<^verbatim>\<open>max_fd\<close> is not below the listener, nor below the
  descriptor of any slot, nor below any member of the master sets; from its first value
  (the listener) it never decreases along a run; closing a connection leaves it as it
  is; and the rejection of a connection for want of a free slot keeps the value that the
  acceptor has just raised.
\<close>

theorem max_fd_bounds_and_monotone:
  assumes "0 \<le> server_fd" and "stack_memory mem"
    and "server_run server_fd (init_server server_fd mem) ops = Some st"
  shows "server_fd \<le> max_fd st
     \<and> (\<forall>i<length (clients st). fd (clients st ! i) \<le> max_fd st)
     \<and> (\<forall>x \<in> master_read_set st \<union> master_write_set st. x \<le> max_fd st)
     \<and> server_fd \<le> max_fd (init_server server_fd mem)
     \<and> max_fd (init_server server_fd mem) \<le> max_fd st
     \<and> (\<forall>ops' st'. server_run server_fd st ops' = Some st' \<longrightarrow> max_fd st \<le> max_fd st')
     \<and> (\<forall>i. max_fd (close_client st i) = max_fd st)
     \<and> (\<forall>n. (\<forall>j<length (clients st). 0 \<le> fd (clients st ! j)) \<longrightarrow>
            clients (handle_new_connection server_fd st (AcceptOk n) True) = clients st
            \<and> max_fd (handle_new_connection server_fd st (AcceptOk n) True)
                = max (max_fd st) (int n))"
proof -
  from assms(1,2) have inv0: "server_inv server_fd (init_server server_fd mem)"
    by (rule server_inv_init)
  from server_run_inv [OF inv0 assms(3)]
  have inv: "server_inv server_fd st" and m0: "max_fd (init_server server_fd mem) \<le> max_fd st"
    by simp_all
  from inv have a: "server_fd \<le> max_fd st"
    and b: "\<forall>i<length (clients st). fd (clients st ! i) \<le> max_fd st"
    unfolding server_inv_def slot_inv_def by simp_all
  have c: "x \<le> max_fd st" if "x \<in> master_read_set st \<union> master_write_set st" for x
  proof -
    from inv that consider "x = server_fd"
      | k where "k < length (clients st)" "fd (clients st ! k) = x"
      unfolding server_inv_def by blast
    then show ?thesis using a b by cases auto
  qed
  have d: "max_fd st \<le> max_fd st'" if "server_run server_fd st ops' = Some st'" for ops' st'
    using server_run_inv [OF inv that] by simp
  have e: "clients (handle_new_connection server_fd st (AcceptOk n) True) = clients st
            \<and> max_fd (handle_new_connection server_fd st (AcceptOk n) True)
                = max (max_fd st) (int n)"
    if "\<forall>j<length (clients st). 0 \<le> fd (clients st ! j)" for n
  proof -
    from that have "find_free_slot (clients st) = None" by (simp add: find_free_slot_None)
    then show ?thesis by (simp add: handle_new_connection_rejected)
  qed
  from a b c d e m0 show ?thesis by (simp add: init_server_def)
qed

lemma example_memory_stack: "stack_memory example_memory"
  by (simp add: stack_memory_def example_memory_def example_buffer_def)

lemma example_run:
  "\<exists>st. server_run 3 (init_server 3 example_memory) example_ops = Some st
     \<and> length (clients st) = 2 \<and> fd (clients st ! 0) = 4 \<and> fd (clients st ! 1) = -1
     \<and> 4 \<in> master_write_set st \<and> max_fd st = 4 \<and> master_read_set st = {3, 4}"
  by (simp add: example_ops_def example_memory_def example_buffer_def init_server_def
      server_step_def accept_fresh_def handle_new_connection_def init_write_buffer_def
      handle_client_read_def recv_sys_def BUFFER_SIZE_def write_buffer_append_def
      MAX_PENDING_WRITES_def Let_def insert_commute)

theorem master_sets_witness:
  "(0::int) \<le> 3 \<and> stack_memory example_memory
   \<and> (\<exists>st. server_run 3 (init_server 3 example_memory) example_ops = Some st
         \<and> 0 < length (clients st) \<and> 0 \<le> fd (clients st ! 0)
         \<and> fd (clients st ! 0) \<in> master_read_set st
         \<and> fd (clients st ! 0) \<in> master_write_set st
         \<and> \<not> write_buffer_empty (write_buf (clients st ! 0))
         \<and> server_step 3 st (OpClose 0) = Some (close_client st 0)
         \<and> \<not> 0 \<le> fd (clients (close_client st 0) ! 0)
         \<and> fd (clients (close_client st 0) ! 0) \<notin> master_read_set (close_client st 0))"
proof -
  from example_run obtain st where
    run: "server_run 3 (init_server 3 example_memory) example_ops = Some st"
    and len: "length (clients st) = 2" and f: "fd (clients st ! 0) = 4"
    and w: "4 \<in> master_write_set st"
    by blast
  have z: "(0::int) \<le> 3" by simp
  note t = master_sets_match_slots [OF z example_memory_stack run]
  from len have l0: "0 < length (clients st)" by simp
  from t l0 f w have a: "fd (clients st ! 0) \<in> master_read_set st"
    and b: "\<not> write_buffer_empty (write_buf (clients st ! 0))" by auto
  from len have c: "server_step 3 st (OpClose 0) = Some (close_client st 0)"
    by (simp add: server_step_def)
  from len f have d: "\<not> 0 \<le> fd (clients (close_client st 0) ! 0)"
    by (simp add: close_client_occupied)
  from t c d len have e: "fd (clients (close_client st 0) ! 0) \<notin> master_read_set (close_client st 0)"
    by (metis close_client_length l0)
  from run l0 f w a b c d e z example_memory_stack show ?thesis by auto
qed

theorem max_fd_witness:
  "(0::int) \<le> 3 \<and> stack_memory example_memory
   \<and> (\<exists>st. server_run 3 (init_server 3 example_memory) example_ops = Some st
         \<and> 3 \<le> max_fd st \<and> fd (clients st ! 0) \<le> max_fd st
         \<and> server_run 3 st [OpClose 0] = Some (close_client st 0)
         \<and> max_fd st \<le> max_fd (close_client st 0))"
proof -
  from example_run obtain st where
    run: "server_run 3 (init_server 3 example_memory) example_ops = Some st"
    and len: "length (clients st) = 2"
    by blast
  have z: "(0::int) \<le> 3" by simp
  note t = max_fd_bounds_and_monotone [OF z example_memory_stack run]
  from len have l0: "0 < length (clients st)" by simp
  from len have c: "server_run 3 st [OpClose 0] = Some (close_client st 0)"
    by (simp add: server_step_def)
  from t l0 c have "3 \<le> max_fd st" "fd (clients st ! 0) \<le> max_fd st"
    "max_fd st \<le> max_fd (close_client st 0)"
    by blast+
  with run c z example_memory_stack show ?thesis by blast
qed

subsection \<open>Event loop\<close>

lemma loop_body_interrupted:
  "k_select k = SelectErr EINTR \<Longrightarrow>
     loop_body s st k =
       Some (None, st\<lparr>trace := trace st @ [Select (max_fd st + 1) (SelectErr EINTR)]\<rparr>)"
  by (simp add: loop_body_def select_sys_def Let_def)

lemma loop_body_select_failed:
  "k_select k = SelectErr e \<Longrightarrow> e \<noteq> EINTR \<Longrightarrow>
     loop_body s st k =
       Some (Some (-1), st\<lparr>trace := trace st @ [Select (max_fd st + 1) (SelectErr e),
                                                Log ''select'']\<rparr>)"
  by (simp add: loop_body_def select_sys_def Let_def)

lemma loop_body_returns:
  "loop_body s st k = Some (Some r, st') \<Longrightarrow>
     r = -1 \<and> (\<exists>e. k_select k = SelectErr e \<and> e \<noteq> EINTR)"
  by (cases "k_select k")
    (auto simp: loop_body_def select_sys_def Let_def split: if_splits option.splits)

lemma event_loop_returns:
  "event_loop s st ks = Some (r, st') \<Longrightarrow>
     r = -1 \<and> (\<exists>k \<in> set ks. \<exists>e. k_select k = SelectErr e \<and> e \<noteq> EINTR)"
proof (induction ks arbitrary: st)
  case Nil
  then show ?case by simp
next
  case (Cons k ks)
  show ?case
  proof (cases "loop_body s st k")
    case None
    with Cons.prems show ?thesis by simp
  next
    case (Some p)
    obtain res st1 where p: "p = (res, st1)" by (cases p)
    show ?thesis
    proof (cases res)
      case None
      with Some p Cons.prems have "event_loop s st1 ks = Some (r, st')" by simp
      from Cons.IH [OF this] show ?thesis by auto
    next
      case (Some r1)
      with \<open>loop_body s st k = Some p\<close> p Cons.prems
      have "loop_body s st k = Some (Some r, st')" by simp
      from loop_body_returns [OF this] show ?thesis by auto
    qed
  qed
qed

text \<open>
  C9. When \<^verbatim>\<open>select\<close> fails with \<^verbatim>\<open>EINTR\<close>, the body goes on to the next iteration
  with the slots, their buffers, both master sets and \<^verbatim>\<open>max_fd\<close> as they were. When it
  fails with another error, the loop returns -1, and so does \<^verbatim>\<open>main\<close>. Whenever
  \<^verbatim>\<open>main\<close> returns, it returns -1 after such a failure, and the exit status is not 0.
\<close>

theorem select_failure_handling:
  "(k_select k = SelectErr EINTR \<longrightarrow>
      (\<exists>st0. loop_body server_fd st k = Some (None, st0) \<and> same_state st st0
          \<and> event_loop server_fd st (k # ks) = event_loop server_fd st0 ks))
   \<and> (\<forall>e. k_select k = SelectErr e \<and> e \<noteq> EINTR \<longrightarrow>
      (\<exists>st'. loop_body server_fd st k = Some (Some (-1), st') \<and> same_state st st'
          \<and> event_loop server_fd st (k # ks) = Some (-1, st'))
      \<and> (\<exists>tr. main server_fd mem (k # ks) = Some (-1, tr)))
   \<and> (\<forall>kernels result tr. main server_fd mem kernels = Some (result, tr) \<longrightarrow>
         result = -1 \<and> exit_status result \<noteq> 0
         \<and> (\<exists>k' \<in> set kernels. \<exists>e. k_select k' = SelectErr e \<and> e \<noteq> EINTR))"
proof (intro conjI impI allI)
  assume "k_select k = SelectErr EINTR"
  from loop_body_interrupted [OF this, of server_fd st]
  show "\<exists>st0. loop_body server_fd st k = Some (None, st0) \<and> same_state st st0
          \<and> event_loop server_fd st (k # ks) = event_loop server_fd st0 ks"
    by (simp add: same_state_def)
next
  fix e assume e: "k_select k = SelectErr e \<and> e \<noteq> EINTR"
  then have 1: "k_select k = SelectErr e" and 2: "e \<noteq> EINTR" by simp_all
  from loop_body_select_failed [OF 1 2, of server_fd st]
  show "\<exists>st'. loop_body server_fd st k = Some (Some (-1), st') \<and> same_state st st'
          \<and> event_loop server_fd st (k # ks) = Some (-1, st')"
    by (simp add: same_state_def)
  from loop_body_select_failed [OF 1 2, of server_fd "init_server server_fd mem"]
  show "\<exists>tr. main server_fd mem (k # ks) = Some (-1, tr)"
    by (simp add: main_def run_server_with_select_def)
next
  fix kernels result tr
  assume m: "main server_fd mem kernels = Some (result, tr)"
  then obtain st' where "event_loop server_fd (init_server server_fd mem) kernels = Some (result, st')"
    by (auto simp: main_def run_server_with_select_def split: option.splits)
  from event_loop_returns [OF this]
  have r: "result = -1" and k: "\<exists>k' \<in> set kernels. \<exists>e. k_select k' = SelectErr e \<and> e \<noteq> EINTR"
    by simp_all
  from r show "result = -1" .
  from r show "exit_status result \<noteq> 0" by (simp add: exit_status_def)
  from k show "\<exists>k' \<in> set kernels. \<exists>e. k_select k' = SelectErr e \<and> e \<noteq> EINTR" .
qed

theorem select_failure_witness:
  "k_select example_interrupted = SelectErr EINTR
   \<and> k_select example_select_failed = SelectErr EBADF \<and> EBADF \<noteq> EINTR
   \<and> (\<exists>st0. loop_body 3 example_server example_interrupted = Some (None, st0)
         \<and> same_state example_server st0)
   \<and> event_loop 3 example_server [example_select_failed] =
        Some (-1, example_server\<lparr>trace := [Select 5 (SelectErr EBADF), Log ''select'']\<rparr>)
   \<and> main 3 example_memory [example_interrupted, example_select_failed] =
        Some (-1, [Log ''Server ready, waiting for connections...'',
                   Select 4 (SelectErr EINTR), Select 4 (SelectErr EBADF), Log ''select'',
                   Close 3])
   \<and> exit_status (-1) = 255"
proof -
  have a: "k_select example_interrupted = SelectErr EINTR"
    "k_select example_select_failed = SelectErr EBADF" "EBADF \<noteq> EINTR"
    by (simp_all add: example_interrupted_def example_select_failed_def)
  have m: "main 3 example_memory [example_interrupted, example_select_failed] =
        Some (-1, [Log ''Server ready, waiting for connections...'',
                   Select 4 (SelectErr EINTR), Select 4 (SelectErr EBADF), Log ''select'',
                   Close 3])"
    by (simp add: main_def run_server_with_select_def init_server_def loop_body_def
        select_sys_def example_interrupted_def example_select_failed_def Let_def)
  note t1 = select_failure_handling [of example_interrupted 3 example_server "[]" example_memory]
  note t2 = select_failure_handling [of example_select_failed 3 example_server "[]" example_memory]
  from t1 a have "\<exists>st0. loop_body 3 example_server example_interrupted = Some (None, st0)
         \<and> same_state example_server st0"
    by blast
  moreover from t2 a have "event_loop 3 example_server [example_select_failed] =
        Some (-1, example_server\<lparr>trace := [Select 5 (SelectErr EBADF), Log ''select'']\<rparr>)"
    by (simp add: loop_body_def select_sys_def Let_def example_server_def)
  moreover from t2 m have "exit_status (-1) \<noteq> 0" by blast
  then have "exit_status (-1) = 255" by (simp add: exit_status_def)
  ultimately show ?thesis using a m by blast
qed

subsection \<open>Echo\<close>

lemma bytes_sent_append: "bytes_sent f (xs @ ys) = bytes_sent f xs @ bytes_sent f ys"
  by (induction f xs rule: bytes_sent.induct) simp_all

lemma bytes_received_append:
  "bytes_received f (xs @ ys) = bytes_received f xs @ bytes_received f ys"
  by (induction f xs rule: bytes_received.induct) simp_all

lemma write_buffer_flush_events:
  "write_buffer_flush buf f script = Some (res, buf', evs) \<Longrightarrow>
     bytes_received g evs = [] \<and> Log ''Write buffer full, cannot append'' \<notin> set evs"
proof (induction script arbitrary: buf res buf' evs)
  case Nil
  then show ?case by (auto split: if_splits)
next
  case (Cons r rs)
  show ?case
  proof (cases "offset buf < size_wb buf")
    case False
    with Cons.prems show ?thesis by auto
  next
    case True
    show ?thesis
    proof (cases r)
      case (SendErr e)
      with True Cons.prems show ?thesis
        by (cases "would_block e") (auto simp: send_sys_def)
    next
      case (SendOk n)
      with True Cons.prems obtain evs1 where
        rec: "write_buffer_flush (buf\<lparr>offset := offset buf + length (take n (pending buf))\<rparr>) f rs
                = Some (res, buf', evs1)"
        and evs: "evs = Send f (take n (pending buf)) # evs1"
        by (auto simp: send_sys_def split: option.splits)
      from Cons.IH [OF rec] evs show ?thesis by simp
    qed
  qed
qed

text \<open>What one call of the read handler does to the connection of its slot.\<close>

lemma handle_client_read_connection:
  assumes i: "i < length (clients st)" and f: "0 \<le> fd (clients st ! i)"
    and wf: "buffer_wf (write_buf (clients st ! i))"
  shows "\<exists>evs. trace (handle_client_read st i r) = trace st @ evs
     \<and> bytes_sent (fd (clients st ! i)) evs = []
     \<and> (fd (clients (handle_client_read st i r) ! i) = fd (clients st ! i)
          \<and> buffer_wf (write_buf (clients (handle_client_read st i r) ! i))
          \<and> pending (write_buf (clients (handle_client_read st i r) ! i))
               = pending (write_buf (clients st ! i)) @ bytes_received (fd (clients st ! i)) evs
          \<and> size_wb (write_buf (clients (handle_client_read st i r) ! i))
               \<le> size_wb (write_buf (clients st ! i))
                  + length (bytes_received (fd (clients st ! i)) evs)
          \<and> Log ''Write buffer full, cannot append'' \<notin> set evs
        \<or> fd (clients (handle_client_read st i r) ! i) < 0
          \<and> (Log ''Write buffer full, cannot append'' \<in> set evs \<longrightarrow>
                MAX_PENDING_WRITES < size_wb (write_buf (clients st ! i))
                  + length (bytes_received (fd (clients st ! i)) evs)))"
proof (cases "recv_sys r")
  case (RecvErr e)
  with i f wf show ?thesis
    by (cases "would_block e")
      (simp_all add: handle_client_read_def Let_def close_client_occupied)
next
  case (RecvOk bs)
  show ?thesis
  proof (cases "bs = []")
    case True
    with RecvOk i f show ?thesis
      by (simp add: handle_client_read_def Let_def close_client_occupied)
  next
    case False
    show ?thesis
    proof (cases "write_buffer_append (write_buf (clients st ! i)) bs")
      case (Inl err)
      then have "MAX_PENDING_WRITES < size_wb (write_buf (clients st ! i)) + length bs"
        by (simp add: write_buffer_append_def Let_def split: if_splits)
      with Inl False RecvOk i f show ?thesis
        by (simp add: handle_client_read_def Let_def close_client_occupied)
    next
      case (Inr buf')
      from write_buffer_append_post [OF wf Inr]
      have "buffer_wf buf'" "pending buf' = pending (write_buf (clients st ! i)) @ bs"
        "size_wb buf' \<le> size_wb (write_buf (clients st ! i)) + length bs"
        by simp_all
      with Inr False RecvOk i f show ?thesis
        by (simp add: handle_client_read_def Let_def)
    qed
  qed
qed


text \<open>What one call of the write handler does to the connection of its slot.\<close>

lemma handle_client_write_connection:
  assumes i: "i < length (clients st)" and f: "0 \<le> fd (clients st ! i)"
    and wf: "buffer_wf (write_buf (clients st ! i))"
    and h: "handle_client_write st i script = Some st'"
  shows "\<exists>evs. trace st' = trace st @ evs
     \<and> bytes_received (fd (clients st ! i)) evs = []
     \<and> Log ''Write buffer full, cannot append'' \<notin> set evs
     \<and> prefix (bytes_sent (fd (clients st ! i)) evs) (pending (write_buf (clients st ! i)))
     \<and> (fd (clients st' ! i) = fd (clients st ! i)
          \<and> buffer_wf (write_buf (clients st' ! i))
          \<and> pending (write_buf (clients st ! i))
               = bytes_sent (fd (clients st ! i)) evs @ pending (write_buf (clients st' ! i))
          \<and> size_wb (write_buf (clients st' ! i)) \<le> size_wb (write_buf (clients st ! i))
        \<or> fd (clients st' ! i) < 0)"
proof -
  define buf where "buf = write_buf (clients st ! i)"
  define g where "g = fd (clients st ! i)"
  from h obtain res buf' evs where
    fl: "write_buffer_flush buf g script = Some (res, buf', evs)"
    unfolding buf_def g_def
    by (auto simp: handle_client_write_def Let_def split: option.splits)
  from wf have wfb: "buffer_wf buf" by (simp add: buf_def)
  have gi: "fd (clients st ! i) = g" and bi: "write_buf (clients st ! i) = buf"
    by (simp_all add: g_def buf_def)
  note post = write_buffer_flush_post [OF fl wfb]
  from write_buffer_flush_events [OF fl, of g]
  have ev: "bytes_received g evs = []" "Log ''Write buffer full, cannot append'' \<notin> set evs"
    by simp_all
  from write_buffer_flush_wf [OF fl wfb] have wf': "buffer_wf buf'" by simp
  from post consider
    (drained) "res = 0" "size_wb buf' = 0" "offset buf' = 0" "bytes_sent g evs = pending buf"
  | (blocked) "res = 1" "flush_stopped buf g buf' evs"
  | (failed) "res = -1" "flush_stopped buf g buf' evs"
    by (elim conjE disjE) simp_all
  then show ?thesis
  proof cases
    case drained
    from fl drained(1) have "handle_client_write st i script =
        Some (st\<lparr>clients := (clients st)[i := (clients st ! i)\<lparr>write_buf := buf'\<rparr>],
                 master_write_set := master_write_set st - {g},
                 trace := trace st @ evs @ [Log ''Finished sending data to client'']\<rparr>)"
      unfolding buf_def g_def by (simp add: handle_client_write_done)
    with h have st': "st' = st\<lparr>clients := (clients st)[i := (clients st ! i)\<lparr>write_buf := buf'\<rparr>],
                 master_write_set := master_write_set st - {g},
                 trace := trace st @ evs @ [Log ''Finished sending data to client'']\<rparr>"
      by simp
    have "pending buf' = []" using drained(2,3) by (simp add: pending_def)
    with drained ev wf' i show ?thesis
      unfolding st'
      by (intro exI [of _ "evs @ [Log ''Finished sending data to client'']"])
        (simp add: bytes_sent_append bytes_received_append gi bi)
  next
    case blocked
    from fl blocked(1) have "handle_client_write st i script =
        Some (st\<lparr>clients := (clients st)[i := (clients st ! i)\<lparr>write_buf := buf'\<rparr>],
                 trace := trace st @ evs\<rparr>)"
      unfolding buf_def g_def by (simp add: handle_client_write_partial)
    with h have st': "st' = st\<lparr>clients := (clients st)[i := (clients st ! i)\<lparr>write_buf := buf'\<rparr>],
                 trace := trace st @ evs\<rparr>"
      by simp
    from post have d: "data buf' = data buf" by simp
    from flush_stopped_buffer [OF blocked(2) d]
    have "pending buf' = drop (length (bytes_sent g evs)) (pending buf)"
      by (simp add: pending_advance)
    moreover from blocked(2) have p: "prefix (bytes_sent g evs) (pending buf)"
      by (simp add: flush_stopped_def)
    ultimately have "pending buf = bytes_sent g evs @ pending buf'"
      by (auto simp: prefix_def)
    with blocked p ev wf' i show ?thesis
      unfolding st'
      by (intro exI [of _ evs]) (simp add: flush_stopped_def gi bi)
  next
    case failed
    from fl failed(1) i f have "handle_client_write st i script =
           Some (st\<lparr>clients := (clients st)[i :=
                      \<lparr>fd = -1, write_buf = buf'\<lparr>size_wb := 0, offset := 0\<rparr>\<rparr>],
                    master_read_set := master_read_set st - {g},
                    master_write_set := master_write_set st - {g},
                    trace := trace st @ evs @ [Log ''Closing client'', Close g]\<rparr>)"
      unfolding buf_def g_def by (simp add: handle_client_write_error)
    with h have st': "st' = st\<lparr>clients := (clients st)[i :=
                      \<lparr>fd = -1, write_buf = buf'\<lparr>size_wb := 0, offset := 0\<rparr>\<rparr>],
                    master_read_set := master_read_set st - {g},
                    master_write_set := master_write_set st - {g},
                    trace := trace st @ evs @ [Log ''Closing client'', Close g]\<rparr>"
      by simp
    from failed(2) have p: "prefix (bytes_sent g evs) (pending buf)"
      by (simp add: flush_stopped_def)
    with ev i show ?thesis
      unfolding st'
      by (intro exI [of _ "evs @ [Log ''Closing client'', Close g]"])
        (simp add: bytes_sent_append bytes_received_append gi bi)
  qed
qed


lemma slot_step_connection:
  assumes op: "on_slot i op" and step: "server_step s st op = Some st1"
    and wf: "buffer_wf B" and B: "B = write_buf (clients st ! i)" and f: "f = fd (clients st ! i)"
  shows "\<exists>evs. trace st1 = trace st @ evs \<and> length (clients st1) = length (clients st)
     \<and> (fd (clients st1 ! i) = f \<and> buffer_wf (write_buf (clients st1 ! i))
          \<and> pending B @ bytes_received f evs
               = bytes_sent f evs @ pending (write_buf (clients st1 ! i))
          \<and> size_wb (write_buf (clients st1 ! i)) \<le> size_wb B + length (bytes_received f evs)
          \<and> Log ''Write buffer full, cannot append'' \<notin> set evs
        \<or> fd (clients st1 ! i) < 0
          \<and> prefix (bytes_sent f evs) (pending B @ bytes_received f evs)
          \<and> (Log ''Write buffer full, cannot append'' \<in> set evs
                \<longrightarrow> MAX_PENDING_WRITES < size_wb B + length (bytes_received f evs)))"
proof (cases op)
  case (OpRead j r)
  with op step have j: "j = i" and i: "i < length (clients st)"
    and o: "0 \<le> fd (clients st ! i)" and st1: "st1 = handle_client_read st i r"
    by (auto simp: server_step_def split: if_splits)
  from wf B have wf': "buffer_wf (write_buf (clients st ! i))" by simp
  from handle_client_read_connection [OF i o wf', of r] obtain evs where
    "trace (handle_client_read st i r) = trace st @ evs"
    "bytes_sent (fd (clients st ! i)) evs = []"
    "fd (clients (handle_client_read st i r) ! i) = fd (clients st ! i)
          \<and> buffer_wf (write_buf (clients (handle_client_read st i r) ! i))
          \<and> pending (write_buf (clients (handle_client_read st i r) ! i))
               = pending (write_buf (clients st ! i)) @ bytes_received (fd (clients st ! i)) evs
          \<and> size_wb (write_buf (clients (handle_client_read st i r) ! i))
               \<le> size_wb (write_buf (clients st ! i))
                  + length (bytes_received (fd (clients st ! i)) evs)
          \<and> Log ''Write buffer full, cannot append'' \<notin> set evs
        \<or> fd (clients (handle_client_read st i r) ! i) < 0
          \<and> (Log ''Write buffer full, cannot append'' \<in> set evs \<longrightarrow>
                MAX_PENDING_WRITES < size_wb (write_buf (clients st ! i))
                  + length (bytes_received (fd (clients st ! i)) evs))"
    by blast
  then show ?thesis
    unfolding st1 B f by (intro exI [of _ evs]) auto
next
  case (OpWrite j script)
  with op step have j: "j = i" and i: "i < length (clients st)"
    and o: "0 \<le> fd (clients st ! i)" and h: "handle_client_write st i script = Some st1"
    by (auto simp: server_step_def split: if_splits)
  from wf B have wf': "buffer_wf (write_buf (clients st ! i))" by simp
  from handle_client_write_connection [OF i o wf' h] obtain evs where
    "trace st1 = trace st @ evs"
    "bytes_received (fd (clients st ! i)) evs = []"
    "Log ''Write buffer full, cannot append'' \<notin> set evs"
    "prefix (bytes_sent (fd (clients st ! i)) evs) (pending (write_buf (clients st ! i)))"
    "fd (clients st1 ! i) = fd (clients st ! i)
          \<and> buffer_wf (write_buf (clients st1 ! i))
          \<and> pending (write_buf (clients st ! i))
               = bytes_sent (fd (clients st ! i)) evs @ pending (write_buf (clients st1 ! i))
          \<and> size_wb (write_buf (clients st1 ! i)) \<le> size_wb (write_buf (clients st ! i))
        \<or> fd (clients st1 ! i) < 0"
    by blast
  with handle_client_write_length [OF h] show ?thesis
    unfolding B f by (intro exI [of _ evs]) auto
qed (use op in simp_all)

lemma slot_run_closed:
  assumes "list_all (on_slot i) ops" and "server_run s st ops = Some st'"
    and "fd (clients st ! i) < 0"
  shows "ops = [] \<and> st' = st"
proof (cases ops)
  case Nil
  with assms(2) show ?thesis by simp
next
  case (Cons op ops')
  with assms(1) have "on_slot i op" by simp
  with assms(3) have "server_step s st op = None"
    by (cases op) (simp_all add: server_step_def)
  with Cons assms(2) show ?thesis by simp
qed


lemma slot_run_connection:
  assumes "list_all (on_slot i) ops" and "server_run s st ops = Some st'"
    and "i < length (clients st)" and "0 \<le> f"
    and "buffer_wf B" and "B = write_buf (clients st ! i)" and "f = fd (clients st ! i)"
  shows "\<exists>evs. trace st' = trace st @ evs \<and> length (clients st') = length (clients st)
     \<and> prefix (bytes_sent f evs) (pending B @ bytes_received f evs)
     \<and> (fd (clients st' ! i) = f \<longrightarrow>
          buffer_wf (write_buf (clients st' ! i))
          \<and> pending B @ bytes_received f evs
               = bytes_sent f evs @ pending (write_buf (clients st' ! i)))
     \<and> (Log ''Write buffer full, cannot append'' \<in> set evs
          \<longrightarrow> MAX_PENDING_WRITES < size_wb B + length (bytes_received f evs))"
  using assms
proof (induction ops arbitrary: st B)
  case Nil
  then show ?case by simp
next
  case (Cons op ops)
  from Cons.prems(1) have op: "on_slot i op" and ops: "list_all (on_slot i) ops" by simp_all
  from Cons.prems(2) obtain st1 where
    step: "server_step s st op = Some st1" and run: "server_run s st1 ops = Some st'"
    by (auto split: option.splits)
  from slot_step_connection [OF op step Cons.prems(5,6,7)] obtain evs1 where
    t1: "trace st1 = trace st @ evs1" and l1: "length (clients st1) = length (clients st)"
    and c1: "fd (clients st1 ! i) = f \<and> buffer_wf (write_buf (clients st1 ! i))
          \<and> pending B @ bytes_received f evs1
               = bytes_sent f evs1 @ pending (write_buf (clients st1 ! i))
          \<and> size_wb (write_buf (clients st1 ! i)) \<le> size_wb B + length (bytes_received f evs1)
          \<and> Log ''Write buffer full, cannot append'' \<notin> set evs1
        \<or> fd (clients st1 ! i) < 0
          \<and> prefix (bytes_sent f evs1) (pending B @ bytes_received f evs1)
          \<and> (Log ''Write buffer full, cannot append'' \<in> set evs1
                \<longrightarrow> MAX_PENDING_WRITES < size_wb B + length (bytes_received f evs1))"
    by blast
  from c1 show ?case
  proof (elim disjE conjE)
    assume closed: "fd (clients st1 ! i) < 0"
      and p: "prefix (bytes_sent f evs1) (pending B @ bytes_received f evs1)"
      and full: "Log ''Write buffer full, cannot append'' \<in> set evs1
                \<longrightarrow> MAX_PENDING_WRITES < size_wb B + length (bytes_received f evs1)"
    from slot_run_closed [OF ops run closed] have "st' = st1" by simp
    with t1 l1 p full closed Cons.prems(4) show ?thesis
      by (intro exI [of _ evs1]) auto
  next
    assume f1: "fd (clients st1 ! i) = f"
      and wf1: "buffer_wf (write_buf (clients st1 ! i))"
      and eq1: "pending B @ bytes_received f evs1
               = bytes_sent f evs1 @ pending (write_buf (clients st1 ! i))"
      and sz1: "size_wb (write_buf (clients st1 ! i)) \<le> size_wb B + length (bytes_received f evs1)"
      and nf1: "Log ''Write buffer full, cannot append'' \<notin> set evs1"
    let ?B1 = "write_buf (clients st1 ! i)"
    from Cons.prems(3) l1 have i1: "i < length (clients st1)" by simp
    from Cons.IH [OF ops run i1 Cons.prems(4) wf1 refl f1 [symmetric]] obtain evs2 where
      t2: "trace st' = trace st1 @ evs2" and l2: "length (clients st') = length (clients st1)"
      and p2: "prefix (bytes_sent f evs2) (pending ?B1 @ bytes_received f evs2)"
      and o2: "fd (clients st' ! i) = f \<longrightarrow>
          buffer_wf (write_buf (clients st' ! i))
          \<and> pending ?B1 @ bytes_received f evs2
               = bytes_sent f evs2 @ pending (write_buf (clients st' ! i))"
      and full2: "Log ''Write buffer full, cannot append'' \<in> set evs2
          \<longrightarrow> MAX_PENDING_WRITES < size_wb ?B1 + length (bytes_received f evs2)"
      by blast
    have a: "trace st' = trace st @ (evs1 @ evs2)" using t1 t2 by simp
    have b: "length (clients st') = length (clients st)" using l1 l2 by simp
    have eq': "pending B @ bytes_received f evs1 @ bytes_received f evs2
        = bytes_sent f evs1 @ pending ?B1 @ bytes_received f evs2"
      using eq1 by (metis append_assoc)
    have "prefix (bytes_sent f evs1 @ bytes_sent f evs2)
        (bytes_sent f evs1 @ pending ?B1 @ bytes_received f evs2)"
      using p2 by simp
    then have c: "prefix (bytes_sent f (evs1 @ evs2))
        (pending B @ bytes_received f (evs1 @ evs2))"
      by (simp only: bytes_sent_append bytes_received_append eq')
    have d: "buffer_wf (write_buf (clients st' ! i))
          \<and> pending B @ bytes_received f (evs1 @ evs2)
               = bytes_sent f (evs1 @ evs2) @ pending (write_buf (clients st' ! i))"
      if "fd (clients st' ! i) = f"
      using o2 that eq' by (simp add: bytes_sent_append bytes_received_append)
    have e: "MAX_PENDING_WRITES < size_wb B + length (bytes_received f (evs1 @ evs2))"
      if "Log ''Write buffer full, cannot append'' \<in> set (evs1 @ evs2)"
    proof -
      from that nf1 have "Log ''Write buffer full, cannot append'' \<in> set evs2" by simp
      with full2 have "MAX_PENDING_WRITES < size_wb ?B1 + length (bytes_received f evs2)" by simp
      with sz1 show ?thesis by (simp add: bytes_received_append)
    qed
    from a b c d e show ?thesis by (intro exI [of _ "evs1 @ evs2"]) blast
  qed
qed

lemma write_buffer_flush_takes_all:
  assumes "buffer_wf buf" and "size_wb buf - offset buf \<le> n"
  shows "\<exists>evs. write_buffer_flush buf f (SendOk n # rs)
            = Some (0, buf\<lparr>size_wb := 0, offset := 0\<rparr>, evs)
          \<and> bytes_sent f evs = pending buf"
proof (cases "offset buf < size_wb buf")
  case False
  then show ?thesis by (simp add: pending_def)
next
  case True
  from assms have t: "take n (pending buf) = pending buf"
    by (simp add: pending_length)
  from assms(1) have "length (pending buf) = size_wb buf - offset buf"
    by (rule pending_length)
  with True assms(1) have "\<not> offset buf + length (pending buf) < size_wb buf"
    by (simp add: buffer_wf_def)
  then have "write_buffer_flush (buf\<lparr>offset := offset buf + length (pending buf)\<rparr>) f rs
      = Some (0, buf\<lparr>size_wb := 0, offset := 0\<rparr>, [])"
    by (simp add: write_buffer_flush_drained)
  with True t show ?thesis by (simp add: send_sys_def)
qed


lemma server_run_append:
  "server_run s st (ops1 @ ops2) =
     (case server_run s st ops1 of None \<Rightarrow> None | Some st1 \<Rightarrow> server_run s st1 ops2)"
  by (induction ops1 arbitrary: st) (simp_all split: option.splits)

lemma handle_client_read_drained:
  assumes i: "i < length (clients st)" and f: "0 \<le> fd (clients st ! i)"
    and wf: "buffer_wf (write_buf (clients st ! i))"
    and dr: "write_buffer_empty (write_buf (clients st ! i))
               \<longrightarrow> size_wb (write_buf (clients st ! i)) = 0"
    and op: "0 \<le> fd (clients (handle_client_read st i r) ! i)"
  shows "write_buffer_empty (write_buf (clients (handle_client_read st i r) ! i))
           \<longrightarrow> size_wb (write_buf (clients (handle_client_read st i r) ! i)) = 0"
proof (cases "recv_sys r")
  case (RecvErr e)
  with i f dr op show ?thesis
    by (cases "would_block e")
      (simp_all add: handle_client_read_def Let_def close_client_occupied)
next
  case (RecvOk bs)
  show ?thesis
  proof (cases "bs = []")
    case True
    with RecvOk i f op show ?thesis
      by (simp add: handle_client_read_def Let_def close_client_occupied)
  next
    case False
    show ?thesis
    proof (cases "write_buffer_append (write_buf (clients st ! i)) bs")
      case (Inl err)
      with False RecvOk i f op show ?thesis
        by (simp add: handle_client_read_def Let_def close_client_occupied)
    next
      case (Inr buf')
      from write_buffer_append_post [OF wf Inr] False
      have "\<not> write_buffer_empty buf'" by simp
      with Inr False RecvOk i show ?thesis
        by (simp add: handle_client_read_def Let_def)
    qed
  qed
qed

lemma handle_client_write_drained:
  assumes i: "i < length (clients st)" and f: "0 \<le> fd (clients st ! i)"
    and wf: "buffer_wf (write_buf (clients st ! i))"
    and h: "handle_client_write st i script = Some st'"
    and op: "0 \<le> fd (clients st' ! i)"
  shows "write_buffer_empty (write_buf (clients st' ! i))
           \<longrightarrow> size_wb (write_buf (clients st' ! i)) = 0"
proof -
  from h obtain res buf' evs where
    fl: "write_buffer_flush (write_buf (clients st ! i)) (fd (clients st ! i)) script
           = Some (res, buf', evs)"
    by (auto simp: handle_client_write_def Let_def split: option.splits)
  from write_buffer_flush_wf [OF fl wf]
  have ne: "res \<noteq> 0 \<longrightarrow> \<not> write_buffer_empty buf'" by simp
  from write_buffer_flush_post [OF fl wf]
  have z: "res = 0 \<longrightarrow> size_wb buf' = 0" by auto
  from write_buffer_flush_post [OF fl wf]
  consider "res = 0" | "res = 1" | "res = -1" by auto
  then show ?thesis
  proof cases
    case 1
    from fl 1 h have "st' = st\<lparr>clients := (clients st)[i := (clients st ! i)\<lparr>write_buf := buf'\<rparr>],
                    master_write_set := master_write_set st - {fd (clients st ! i)},
                    trace := trace st @ evs @ [Log ''Finished sending data to client'']\<rparr>"
      by (simp add: handle_client_write_done)
    with z 1 i show ?thesis by simp
  next
    case 2
    from fl 2 h have "st' = st\<lparr>clients := (clients st)[i := (clients st ! i)\<lparr>write_buf := buf'\<rparr>],
                    trace := trace st @ evs\<rparr>"
      by (simp add: handle_client_write_partial)
    with ne 2 i show ?thesis by simp
  next
    case 3
    from fl 3 h i f have "fd (clients st' ! i) = -1"
      by (auto simp: handle_client_write_error)
    with op show ?thesis by simp
  qed
qed

lemma slot_run_drained:
  assumes "list_all (on_slot i) ops" and "server_run s st ops = Some st'"
    and "i < length (clients st)" and "0 \<le> fd (clients st ! i)"
    and "buffer_wf (write_buf (clients st ! i))"
    and "write_buffer_empty (write_buf (clients st ! i))
           \<longrightarrow> size_wb (write_buf (clients st ! i)) = 0"
    and "0 \<le> fd (clients st' ! i)"
  shows "buffer_wf (write_buf (clients st' ! i))
     \<and> (write_buffer_empty (write_buf (clients st' ! i))
           \<longrightarrow> size_wb (write_buf (clients st' ! i)) = 0)"
  using assms
proof (induction ops arbitrary: st)
  case Nil
  then show ?case by simp
next
  case (Cons op ops)
  from Cons.prems(1) have op: "on_slot i op" and ops: "list_all (on_slot i) ops" by simp_all
  from Cons.prems(2) obtain st1 where
    step: "server_step s st op = Some st1" and run: "server_run s st1 ops = Some st'"
    by (auto split: option.splits)
  have open1: "0 \<le> fd (clients st1 ! i)"
  proof (rule ccontr)
    assume "\<not> 0 \<le> fd (clients st1 ! i)"
    then have "fd (clients st1 ! i) < 0" by simp
    from slot_run_closed [OF ops run this] have "st' = st1" by simp
    with Cons.prems(7) \<open>fd (clients st1 ! i) < 0\<close> show False by simp
  qed
  from slot_step_connection [OF op step Cons.prems(5) refl refl] open1
  have wf1: "buffer_wf (write_buf (clients st1 ! i))"
    and l1: "length (clients st1) = length (clients st)"
    by auto
  have dr1: "write_buffer_empty (write_buf (clients st1 ! i))
           \<longrightarrow> size_wb (write_buf (clients st1 ! i)) = 0"
  proof (cases op)
    case (OpRead j r)
    with op step have "st1 = handle_client_read st i r"
      by (auto simp: server_step_def split: if_splits)
    with handle_client_read_drained [OF Cons.prems(3,4,5,6), of r] open1
    show ?thesis by simp
  next
    case (OpWrite j script)
    with op step have "handle_client_write st i script = Some st1"
      by (auto simp: server_step_def split: if_splits)
    from handle_client_write_drained [OF Cons.prems(3,4,5) this open1]
    show ?thesis .
  qed (use op in simp_all)
  from Cons.prems(3) l1 have i1: "i < length (clients st1)" by simp
  from Cons.IH [OF ops run i1 open1 wf1 dr1 Cons.prems(7)] show ?case .
qed

text \<open>
  C2. A connection starts with the buffer that the acceptor resets. After any sequence of
  calls of the read and write handlers of its slot, with \<open>R\<close> the bytes that \<^verbatim>\<open>recv\<close>
  delivered from the descriptor and \<open>S\<close> the bytes that \<^verbatim>\<open>send\<close> transmitted to it:
  \<open>S\<close> is a prefix of \<open>R\<close>; while the connection is open, \<open>R\<close> is \<open>S\<close> followed by
  the staged bytes, so that \<open>S = R\<close> once the buffer is drained; and on an open
  connection one more call of the write handler, with a socket that takes all it is
  given, completes the echo of \<open>R\<close>. The capacity that counts is that of the bytes
  staged since the buffer was last fully drained, sent or not, for the buffer does not
  reclaim the space of sent bytes before it is drained: no append is refused while the
  bytes delivered since the last point of the run at which the buffer was empty (the
  acceptance is one) number at most \<^verbatim>\<open>MAX_PENDING_WRITES\<close>. The bytes in flight, delivered
  and not yet sent, do not decide it: the last append of the run \<open>example_dead_space\<close>
  is refused with 4098 bytes in flight.
\<close>

theorem echo_in_order:
  assumes "i < length (clients st)" and "0 \<le> fd (clients st ! i)"
    and "f = fd (clients st ! i)"
    and "length (data (write_buf (clients st ! i))) = MAX_PENDING_WRITES"
    and "size_wb (write_buf (clients st ! i)) = 0" and "offset (write_buf (clients st ! i)) = 0"
    and "list_all (on_slot i) ops" and "server_run s st ops = Some st'"
    and "S = bytes_sent f (new_events st st')" and "R = bytes_received f (new_events st st')"
  shows "prefix S R
     \<and> (fd (clients st' ! i) = f \<longrightarrow> R = S @ pending (write_buf (clients st' ! i)))
     \<and> (fd (clients st' ! i) = f \<and> write_buffer_empty (write_buf (clients st' ! i))
          \<longrightarrow> S = R)
     \<and> (length R \<le> MAX_PENDING_WRITES
          \<longrightarrow> Log ''Write buffer full, cannot append'' \<notin> set (new_events st st'))
     \<and> (\<forall>ops1 ops2 st1.
           ops = ops1 @ ops2 \<and> server_run s st ops1 = Some st1
           \<and> fd (clients st1 ! i) = f \<and> write_buffer_empty (write_buf (clients st1 ! i))
           \<and> length (bytes_received f (new_events st1 st')) \<le> MAX_PENDING_WRITES
           \<longrightarrow> Log ''Write buffer full, cannot append'' \<notin> set (new_events st1 st'))
     \<and> (fd (clients st' ! i) = f \<longrightarrow>
          (\<exists>st''. handle_client_write st' i [SendOk MAX_PENDING_WRITES] = Some st''
             \<and> fd (clients st'' ! i) = f
             \<and> bytes_sent f (new_events st st'') = R))"
proof -
  define B where "B = write_buf (clients st ! i)"
  from assms(4,5,6) have wf: "buffer_wf B" and p0: "pending B = []" and s0: "size_wb B = 0"
    by (simp_all add: B_def buffer_wf_def pending_def)
  from assms(2,3) have f0: "0 \<le> f" by simp
  from slot_run_connection [OF assms(7,8,1) f0 wf B_def assms(3)] obtain evs where
    t: "trace st' = trace st @ evs" and l: "length (clients st') = length (clients st)"
    and p: "prefix (bytes_sent f evs) (pending B @ bytes_received f evs)"
    and o: "fd (clients st' ! i) = f \<longrightarrow>
          buffer_wf (write_buf (clients st' ! i))
          \<and> pending B @ bytes_received f evs
               = bytes_sent f evs @ pending (write_buf (clients st' ! i))"
    and full: "Log ''Write buffer full, cannot append'' \<in> set evs
          \<longrightarrow> MAX_PENDING_WRITES < size_wb B + length (bytes_received f evs)"
    by blast
  from t have ne: "new_events st st' = evs" by (rule new_events_append)
  from ne assms(9,10) have S: "S = bytes_sent f evs" and R: "R = bytes_received f evs"
    by simp_all
  from p p0 S R have 1: "prefix S R" by simp
  from o p0 S R have 2: "R = S @ pending (write_buf (clients st' ! i))"
    if "fd (clients st' ! i) = f" using that by simp
  have 3: "S = R"
    if "fd (clients st' ! i) = f \<and> write_buffer_empty (write_buf (clients st' ! i))"
  proof -
    from that have "pending (write_buf (clients st' ! i)) = []"
      by (simp add: pending_def write_buffer_empty_def)
    with 2 that show ?thesis by simp
  qed
  from full s0 R ne have 4: "Log ''Write buffer full, cannot append'' \<notin> set (new_events st st')"
    if "length R \<le> MAX_PENDING_WRITES" using that by auto
  have 5: "\<exists>st''. handle_client_write st' i [SendOk MAX_PENDING_WRITES] = Some st''
             \<and> fd (clients st'' ! i) = f
             \<and> bytes_sent f (new_events st st'') = R"
    if open': "fd (clients st' ! i) = f"
  proof -
    let ?B' = "write_buf (clients st' ! i)"
    from o open' have wf': "buffer_wf ?B'" by simp
    then have "size_wb ?B' - offset ?B' \<le> MAX_PENDING_WRITES"
      unfolding buffer_wf_def by arith
    from write_buffer_flush_takes_all [OF wf' this, of f "[]"] obtain evs' where
      fl: "write_buffer_flush ?B' f [SendOk MAX_PENDING_WRITES]
             = Some (0, ?B'\<lparr>size_wb := 0, offset := 0\<rparr>, evs')"
      and sent: "bytes_sent f evs' = pending ?B'"
      by blast
    from fl open' have fl': "write_buffer_flush ?B' (fd (clients st' ! i))
        [SendOk MAX_PENDING_WRITES] = Some (0, ?B'\<lparr>size_wb := 0, offset := 0\<rparr>, evs')"
      by simp
    note h = handle_client_write_done [OF fl']
    from assms(1) l have i': "i < length (clients st')" by simp
    show ?thesis
      unfolding h using i' open' t sent 2 [OF open'] S
      by (simp add: new_events_def bytes_sent_append)
  qed
  have 6: "Log ''Write buffer full, cannot append'' \<notin> set (new_events st1 st')"
    if split: "ops = ops1 @ ops2 \<and> server_run s st ops1 = Some st1
           \<and> fd (clients st1 ! i) = f \<and> write_buffer_empty (write_buf (clients st1 ! i))
           \<and> length (bytes_received f (new_events st1 st')) \<le> MAX_PENDING_WRITES"
    for ops1 ops2 st1
  proof -
    from split have ops: "ops = ops1 @ ops2" and run1: "server_run s st ops1 = Some st1"
      and f1: "fd (clients st1 ! i) = f"
      and e1: "write_buffer_empty (write_buf (clients st1 ! i))"
      and r2: "length (bytes_received f (new_events st1 st')) \<le> MAX_PENDING_WRITES"
      by simp_all
    from assms(7) ops have on1: "list_all (on_slot i) ops1" and on2: "list_all (on_slot i) ops2"
      by simp_all
    from assms(8) ops run1 have run2: "server_run s st1 ops2 = Some st'"
      by (simp add: server_run_append)
    from wf have wf0: "buffer_wf (write_buf (clients st ! i))" by (simp add: B_def)
    from s0 have dr0: "write_buffer_empty (write_buf (clients st ! i))
        \<longrightarrow> size_wb (write_buf (clients st ! i)) = 0" by (simp add: B_def)
    from f1 f0 have open1: "0 \<le> fd (clients st1 ! i)" by simp
    from slot_run_drained [OF on1 run1 assms(1,2) wf0 dr0 open1] e1
    have wf1: "buffer_wf (write_buf (clients st1 ! i))"
      and s1: "size_wb (write_buf (clients st1 ! i)) = 0" by simp_all
    from slot_run_connection [OF on1 run1 assms(1) f0 wf B_def assms(3)]
    have "length (clients st1) = length (clients st)" by blast
    with assms(1) have i1: "i < length (clients st1)" by simp
    from slot_run_connection [OF on2 run2 i1 f0 wf1 refl f1 [symmetric]] obtain evs2 where
      t2: "trace st' = trace st1 @ evs2"
      and full2: "Log ''Write buffer full, cannot append'' \<in> set evs2
          \<longrightarrow> MAX_PENDING_WRITES
               < size_wb (write_buf (clients st1 ! i)) + length (bytes_received f evs2)"
      by blast
    from t2 have "new_events st1 st' = evs2" by (rule new_events_append)
    with full2 s1 r2 show ?thesis by auto
  qed
  from 1 2 3 4 5 6 show ?thesis by blast
qed

lemmas example_eval = example_accepted_def example_echo_def example_memory_def example_buffer_def
  init_server_def server_step_def handle_new_connection_def init_write_buffer_def
  handle_client_read_def handle_client_write_def recv_sys_def send_sys_def BUFFER_SIZE_def
  write_buffer_append_def memcpy_def pending_def would_block_def
  MAX_PENDING_WRITES_def Let_def new_events_def write_buffer_empty_def

lemma example_accepted_fresh:
  "0 < length (clients example_accepted)" "0 \<le> fd (clients example_accepted ! 0)"
  "4 = fd (clients example_accepted ! 0)"
  "length (data (write_buf (clients example_accepted ! 0))) = MAX_PENDING_WRITES"
  "size_wb (write_buf (clients example_accepted ! 0)) = 0"
  "offset (write_buf (clients example_accepted ! 0)) = 0"
  "list_all (on_slot 0) example_echo"
  by (simp_all add: example_eval)

lemma example_echo_run:
  "\<exists>st'. server_run 3 example_accepted example_echo = Some st'
     \<and> fd (clients st' ! 0) = 4 \<and> write_buffer_empty (write_buf (clients st' ! 0))
     \<and> bytes_received 4 (new_events example_accepted st') = [104, 105, 33]"
  by (simp add: example_eval)

lemma example_echo_more_run:
  "list_all (on_slot 0) example_echo_more"
  "server_run 3 example_accepted example_echo_more = Some example_refilled"
  "example_echo_more = example_echo @ [OpRead 0 (RecvOk [63])]
   \<and> server_run 3 example_accepted example_echo = Some example_drained
   \<and> fd (clients example_drained ! 0) = 4
   \<and> write_buffer_empty (write_buf (clients example_drained ! 0))
   \<and> length (bytes_received 4 (new_events example_drained example_refilled))
       \<le> MAX_PENDING_WRITES"
  by (simp_all add: example_echo_more_def example_drained_def example_refilled_def example_eval)

theorem echo_witness:
  "0 < length (clients example_accepted) \<and> 0 \<le> fd (clients example_accepted ! 0)
   \<and> 4 = fd (clients example_accepted ! 0)
   \<and> length (data (write_buf (clients example_accepted ! 0))) = MAX_PENDING_WRITES
   \<and> size_wb (write_buf (clients example_accepted ! 0)) = 0
   \<and> offset (write_buf (clients example_accepted ! 0)) = 0
   \<and> list_all (on_slot 0) example_echo
   \<and> (\<exists>st'. server_run 3 example_accepted example_echo = Some st'
         \<and> fd (clients st' ! 0) = 4 \<and> write_buffer_empty (write_buf (clients st' ! 0))
         \<and> bytes_received 4 (new_events example_accepted st') = [104, 105, 33]
         \<and> bytes_sent 4 (new_events example_accepted st') = [104, 105, 33]
         \<and> Log ''Write buffer full, cannot append'' \<notin> set (new_events example_accepted st'))
   \<and> list_all (on_slot 0) example_echo_more
   \<and> server_run 3 example_accepted example_echo_more = Some example_refilled
   \<and> example_echo_more = example_echo @ [OpRead 0 (RecvOk [63])]
   \<and> server_run 3 example_accepted example_echo = Some example_drained
   \<and> fd (clients example_drained ! 0) = 4
   \<and> write_buffer_empty (write_buf (clients example_drained ! 0))
   \<and> length (bytes_received 4 (new_events example_drained example_refilled))
       \<le> MAX_PENDING_WRITES
   \<and> Log ''Write buffer full, cannot append''
       \<notin> set (new_events example_drained example_refilled)"
proof -
  from example_echo_run obtain st' where
    run: "server_run 3 example_accepted example_echo = Some st'"
    and f: "fd (clients st' ! 0) = 4"
    and e: "write_buffer_empty (write_buf (clients st' ! 0))"
    and r: "bytes_received 4 (new_events example_accepted st') = [104, 105, 33]"
    by blast
  note t = echo_in_order [OF example_accepted_fresh run refl refl]
  from t have "fd (clients st' ! 0) = 4 \<and> write_buffer_empty (write_buf (clients st' ! 0))
      \<longrightarrow> bytes_sent 4 (new_events example_accepted st')
          = bytes_received 4 (new_events example_accepted st')"
    by (elim conjE)
  with f e have "bytes_sent 4 (new_events example_accepted st')
          = bytes_received 4 (new_events example_accepted st')"
    by (elim impE) (rule conjI)
  with r have s: "bytes_sent 4 (new_events example_accepted st') = [104, 105, 33]"
    by (simp only:)
  from r have "length (bytes_received 4 (new_events example_accepted st')) \<le> MAX_PENDING_WRITES"
    by (simp add: MAX_PENDING_WRITES_def)
  moreover from t have "length (bytes_received 4 (new_events example_accepted st'))
      \<le> MAX_PENDING_WRITES
      \<longrightarrow> Log ''Write buffer full, cannot append'' \<notin> set (new_events example_accepted st')"
    by (elim conjE)
  ultimately
  have n: "Log ''Write buffer full, cannot append'' \<notin> set (new_events example_accepted st')"
    by (rule rev_mp)
  from run f e r s n have first: "\<exists>st'. server_run 3 example_accepted example_echo = Some st'
         \<and> fd (clients st' ! 0) = 4 \<and> write_buffer_empty (write_buf (clients st' ! 0))
         \<and> bytes_received 4 (new_events example_accepted st') = [104, 105, 33]
         \<and> bytes_sent 4 (new_events example_accepted st') = [104, 105, 33]
         \<and> Log ''Write buffer full, cannot append'' \<notin> set (new_events example_accepted st')"
    by (intro exI [of _ st'] conjI)
  note t2 = echo_in_order [OF example_accepted_fresh(1-6) example_echo_more_run(1)
      example_echo_more_run(2) refl refl]
  from t2 have "\<forall>ops1 ops2 st1.
      example_echo_more = ops1 @ ops2 \<and> server_run 3 example_accepted ops1 = Some st1
      \<and> fd (clients st1 ! 0) = 4 \<and> write_buffer_empty (write_buf (clients st1 ! 0))
      \<and> length (bytes_received 4 (new_events st1 example_refilled)) \<le> MAX_PENDING_WRITES
      \<longrightarrow> Log ''Write buffer full, cannot append'' \<notin> set (new_events st1 example_refilled)"
    by (elim conjE)
  then have "example_echo_more = example_echo @ [OpRead 0 (RecvOk [63])]
      \<and> server_run 3 example_accepted example_echo = Some example_drained
      \<and> fd (clients example_drained ! 0) = 4
      \<and> write_buffer_empty (write_buf (clients example_drained ! 0))
      \<and> length (bytes_received 4 (new_events example_drained example_refilled))
          \<le> MAX_PENDING_WRITES
      \<longrightarrow> Log ''Write buffer full, cannot append''
          \<notin> set (new_events example_drained example_refilled)"
    by (elim allE)
  with example_echo_more_run(3)
  have second: "Log ''Write buffer full, cannot append''
      \<notin> set (new_events example_drained example_refilled)"
    by (rule rev_mp)
  from example_accepted_fresh first example_echo_more_run second show ?thesis
    by (elim conjE) (intro conjI)
qed

text \<open>
  The run \<open>example_dead_space\<close>: the bytes in flight number 4096, 1, 4097 and 4098 after
  its four steps, never more than \<^verbatim>\<open>MAX_PENDING_WRITES\<close>; yet the last byte is refused,
  because 8192 bytes are staged since the buffer was last empty, and the connection is
  closed with 4095 of 8193 bytes echoed.
\<close>

theorem echo_in_flight_counterexample:
  "server_run 3 example_accepted example_dead_space \<noteq> None
   \<and> in_flight 4 (new_events example_accepted
         (the (server_run 3 example_accepted (take 1 example_dead_space)))) = 4096
   \<and> in_flight 4 (new_events example_accepted
         (the (server_run 3 example_accepted (take 2 example_dead_space)))) = 1
   \<and> in_flight 4 (new_events example_accepted
         (the (server_run 3 example_accepted (take 3 example_dead_space)))) = 4097
   \<and> in_flight 4 (new_events example_accepted
         (the (server_run 3 example_accepted example_dead_space))) = 4098
   \<and> 4098 \<le> MAX_PENDING_WRITES
   \<and> Log ''Write buffer full, cannot append'' \<in> set (new_events example_accepted
         (the (server_run 3 example_accepted example_dead_space)))
   \<and> Close 4 \<in> set (new_events example_accepted
         (the (server_run 3 example_accepted example_dead_space)))
   \<and> fd (clients (the (server_run 3 example_accepted example_dead_space)) ! 0) = -1
   \<and> length (bytes_received 4 (new_events example_accepted
         (the (server_run 3 example_accepted example_dead_space)))) = 8193
   \<and> length (bytes_sent 4 (new_events example_accepted
         (the (server_run 3 example_accepted example_dead_space)))) = 4095
   \<and> bytes_sent 4 (new_events example_accepted
         (the (server_run 3 example_accepted example_dead_space)))
       \<noteq> bytes_received 4 (new_events example_accepted
         (the (server_run 3 example_accepted example_dead_space)))"
proof -
  have a: "server_run 3 example_accepted example_dead_space \<noteq> None
   \<and> fd (clients (the (server_run 3 example_accepted example_dead_space)) ! 0) = -1
   \<and> length (bytes_received 4 (new_events example_accepted
         (the (server_run 3 example_accepted example_dead_space)))) = 8193
   \<and> length (bytes_sent 4 (new_events example_accepted
         (the (server_run 3 example_accepted example_dead_space)))) = 4095
   \<and> Log ''Write buffer full, cannot append'' \<in> set (new_events example_accepted
         (the (server_run 3 example_accepted example_dead_space)))
   \<and> Close 4 \<in> set (new_events example_accepted
         (the (server_run 3 example_accepted example_dead_space)))"
    by (simp add: example_eval example_dead_space_def close_client_def)
  have b: "in_flight 4 (new_events example_accepted
         (the (server_run 3 example_accepted (take 1 example_dead_space)))) = 4096"
    by (simp add: example_eval example_dead_space_def in_flight_def)
  have c: "in_flight 4 (new_events example_accepted
         (the (server_run 3 example_accepted (take 2 example_dead_space)))) = 1"
    by (simp add: example_eval example_dead_space_def in_flight_def)
  have d: "in_flight 4 (new_events example_accepted
         (the (server_run 3 example_accepted (take 3 example_dead_space)))) = 4097"
    by (simp add: example_eval example_dead_space_def in_flight_def)
  from a have e: "in_flight 4 (new_events example_accepted
         (the (server_run 3 example_accepted example_dead_space))) = 4098"
    by (simp add: in_flight_def)
  have f: "4098 \<le> MAX_PENDING_WRITES" by (simp add: MAX_PENDING_WRITES_def)
  from a have ne: "length (bytes_sent 4 (new_events example_accepted
         (the (server_run 3 example_accepted example_dead_space))))
       \<noteq> length (bytes_received 4 (new_events example_accepted
         (the (server_run 3 example_accepted example_dead_space))))"
    by simp
  have g: "bytes_sent 4 (new_events example_accepted
         (the (server_run 3 example_accepted example_dead_space)))
       \<noteq> bytes_received 4 (new_events example_accepted
         (the (server_run 3 example_accepted example_dead_space)))"
    using ne by (intro notI) simp
  from a b c d e f g show ?thesis by (intro conjI) simp_all
qed

end
